theory Spec2Isabelle
  imports Complex_Main "HOL-Library.Sublist"
begin

section \<open>The platform's URL class\<close>

text \<open>
  Both crawlers of \<^verbatim>\<open>wcag-crawler.ts\<close> go through the class \<^verbatim>\<open>URL\<close> of Node's
  \<^verbatim>\<open>url\<close> package, which is not part of the repository. It is a parameter of
  everything below: a record of the five operations the crawlers use, over any type
  \<open>'u\<close> of URL objects.
  \<^item> \<open>parse\<close> is \<^verbatim>\<open>new URL(raw)\<close>; \<open>None\<close> is the \<^verbatim>\<open>TypeError\<close> the constructor throws;
  \<^item> \<open>href\<close> and \<open>hostname\<close> are the getters \<^verbatim>\<open>u.href\<close> and \<^verbatim>\<open>u.hostname\<close>;
  \<^item> \<open>set_hash\<close> and \<open>set_hostname\<close> are the setters \<^verbatim>\<open>u.hash = v\<close> and
    \<^verbatim>\<open>u.hostname = v\<close>, which return the object as it is after the assignment.
\<close>

record 'u url_class =
  parse :: "string \<Rightarrow> 'u option"
  href :: "'u \<Rightarrow> string"
  hostname :: "'u \<Rightarrow> string"
  set_hash :: "'u \<Rightarrow> string \<Rightarrow> 'u"
  set_hostname :: "'u \<Rightarrow> string \<Rightarrow> 'u"

section \<open>URL helpers of the two crawlers\<close>

text \<open>
  \<^verbatim>\<open>normalizeUrl\<close> of the modular crawler (lines 48-60): clear the fragment, strip one
  leading \<^verbatim>\<open>www.\<close> of the host name, return the serialisation; \<open>None\<close> is \<^verbatim>\<open>null\<close>.
\<close>

definition normalizeUrl :: "'u url_class \<Rightarrow> string \<Rightarrow> string option" where
  "normalizeUrl U raw =
     (case parse U raw of
        None \<Rightarrow> None
      | Some u \<Rightarrow>
          (let u1 = set_hash U u [];
               u2 = (if prefix ''www.'' (hostname U u1)
                     then set_hostname U u1 (drop 4 (hostname U u1)) else u1)
           in Some (href U u2)))"

text \<open>\<^verbatim>\<open>normalizeUrl\<close> of the stage-1 crawler (lines 224-232): clear the fragment only.\<close>

definition normalizeUrl_stage1 :: "'u url_class \<Rightarrow> string \<Rightarrow> string option" where
  "normalizeUrl_stage1 U rawUrl =
     (case parse U rawUrl of
        None \<Rightarrow> None
      | Some u \<Rightarrow> Some (href U (set_hash U u [])))"

text \<open>
  \<^verbatim>\<open>sameDomain\<close> of the modular crawler (lines 62-70): both arguments go through
  \<^verbatim>\<open>new URL\<close>, and a failure of either is caught and answered with \<^verbatim>\<open>false\<close>.
\<close>

definition sameDomain :: "'u url_class \<Rightarrow> string \<Rightarrow> string \<Rightarrow> bool" where
  "sameDomain U u base =
     (case parse U u of
        None \<Rightarrow> False
      | Some pu \<Rightarrow>
          (case parse U base of
             None \<Rightarrow> False
           | Some pb \<Rightarrow>
               (let urlHost = hostname U pu; baseHost = hostname U pb
                in urlHost = baseHost \<or> suffix (CHR ''.'' # baseHost) urlHost)))"

text \<open>
  \<^verbatim>\<open>isSameDomain\<close> of the stage-1 crawler (lines 234-240): the host name of the URL ends
  with the base domain, taken as a plain string.
\<close>

definition isSameDomain :: "'u url_class \<Rightarrow> string \<Rightarrow> string \<Rightarrow> bool" where
  "isSameDomain U u baseDomain =
     (case parse U u of
        None \<Rightarrow> False
      | Some pu \<Rightarrow> suffix baseDomain (hostname U pu))"

section \<open>What the crawlers rely on in the URL class\<close>

text \<open>
  The URL objects the crawlers hold: the ones the constructor returns, and those again
  after \<^verbatim>\<open>u.hash = ""\<close> or an assignment to \<^verbatim>\<open>u.hostname\<close>.
\<close>

inductive url_object :: "'u url_class \<Rightarrow> 'u \<Rightarrow> bool" for U :: "'u url_class" where
  parsed: "parse U s = Some u \<Longrightarrow> url_object U u"
| hash_cleared: "url_object U u \<Longrightarrow> url_object U (set_hash U u [])"
| hostname_set: "url_object U u \<Longrightarrow> url_object U (set_hostname U u v)"

text \<open>
  Laws of the URL standard, for these objects:
  \<^item> the serialisation of a URL parses, and gives the same URL;
  \<^item> clearing the fragment twice is clearing it once, leaves the host name as it is, and
    gives a serialisation without \<^verbatim>\<open>#\<close>;
  \<^item> the two setters commute: one writes the fragment, the other the host;
  \<^item> a serialisation without fragment, followed by \<^verbatim>\<open>#\<close> and any string, parses (if it
    does) to the same URL with another fragment;
  \<^item> assigning to the host name what follows its leading \<^verbatim>\<open>www.\<close> either is refused
    (the URL stays as it is), or makes this the host name, or leaves the URL with an empty
    host name (as \<^verbatim>\<open>localhost\<close> does in a \<^verbatim>\<open>file:\<close> URL).
\<close>

definition url_laws :: "'u url_class \<Rightarrow> bool" where
  "url_laws U =
     (\<forall>u. url_object U u \<longrightarrow>
        parse U (href U u) = Some u \<and>
        set_hash U (set_hash U u []) [] = set_hash U u [] \<and>
        hostname U (set_hash U u []) = hostname U u \<and>
        CHR ''#'' \<notin> set (href U (set_hash U u [])) \<and>
        (\<forall>v. set_hash U (set_hostname U u v) [] = set_hostname U (set_hash U u []) v) \<and>
        (\<forall>f w. parse U (href U (set_hash U u []) @ CHR ''#'' # f) = Some w \<longrightarrow>
               set_hash U w [] = set_hash U u []) \<and>
        (prefix ''www.'' (hostname U u) \<longrightarrow>
           set_hostname U u (drop 4 (hostname U u)) = u \<or>
           hostname U (set_hostname U u (drop 4 (hostname U u))) = drop 4 (hostname U u) \<or>
           hostname U (set_hostname U u (drop 4 (hostname U u))) = []))"

text \<open>The URL object whose serialisation \<^verbatim>\<open>normalizeUrl\<close> returns.\<close>

definition normal_form :: "'u url_class \<Rightarrow> 'u \<Rightarrow> 'u" where
  "normal_form U u =
     (let u1 = set_hash U u []
      in if prefix ''www.'' (hostname U u1) then set_hostname U u1 (drop 4 (hostname U u1))
         else u1)"

section \<open>A URL class for plain URLs\<close>

text \<open>
  An example of a URL class, on which the crawlers can be evaluated. It accepts the plain
  URLs \<^verbatim>\<open>http[s]://host[/path][?query][#fragment]\<close>, with lower-case scheme and host,
  without credentials, port, IPv4/IPv6/IDNA host form, dot segment, path escape or
  character that the platform would percent-encode: strings that the platform takes as
  they are. It rejects every other string, which the platform does not: it is not a model
  of \<^verbatim>\<open>new URL\<close> on all strings. No statement about all inputs is about this class;
  those are about any URL class, or about any that satisfies the laws above. The class is
  used to run the crawlers on given sites, whose URLs are plain, and on strings without a
  scheme, which the platform rejects as well.

  A URL object of the class is the record of its components: a query or fragment that is
  absent (\<^verbatim>\<open>null\<close>) is \<open>None\<close>, one that is present and empty is \<open>Some []\<close>.
\<close>

record url =
  url_scheme :: string
  url_host :: string
  url_path :: string
  url_query :: "string option"
  url_fragment :: "string option"

definition split_first :: "char \<Rightarrow> string \<Rightarrow> string \<times> string option" where
  "split_first c s =
     (takeWhile (\<lambda>x. x \<noteq> c) s,
      case dropWhile (\<lambda>x. x \<noteq> c) s of [] \<Rightarrow> None | _ # r \<Rightarrow> Some r)"

definition host_chars :: string where
  "host_chars = ''abcdefghijklmnopqrstuvwxyz0123456789-.''"

definition path_chars :: string where
  "path_chars =
     ''abcdefghijklmnopqrstuvwxyzABCDEFGHIJKLMNOPQRSTUVWXYZ0123456789-._~/:@!$&()*+,;=''"

definition query_chars :: string where
  "query_chars = path_chars @ ''?%''"

definition fragment_chars :: string where
  "fragment_chars = query_chars @ ''#''"

definition last_label :: "string \<Rightarrow> string" where
  "last_label h =
     rev (takeWhile (\<lambda>c. c \<noteq> CHR ''.'') (rev (if suffix ''.'' h then butlast h else h)))"

definition valid_host :: "string \<Rightarrow> bool" where
  "valid_host h =
     (h \<noteq> [] \<and> list_all (\<lambda>c. c \<in> set host_chars) h \<and> \<not> sublist ''xn--'' h \<and>
      (case last_label h of [] \<Rightarrow> True | c # _ \<Rightarrow> c \<notin> set ''0123456789''))"

definition valid_path :: "string \<Rightarrow> bool" where
  "valid_path p =
     (prefix ''/'' p \<and> list_all (\<lambda>c. c \<in> set path_chars) p \<and>
      \<not> sublist ''/./'' (p @ ''/'') \<and> \<not> sublist ''/../'' (p @ ''/''))"

definition valid_query :: "string option \<Rightarrow> bool" where
  "valid_query q = (case q of None \<Rightarrow> True | Some t \<Rightarrow> list_all (\<lambda>c. c \<in> set query_chars) t)"

definition valid_fragment :: "string option \<Rightarrow> bool" where
  "valid_fragment f =
     (case f of None \<Rightarrow> True | Some t \<Rightarrow> list_all (\<lambda>c. c \<in> set fragment_chars) t)"

definition split_scheme :: "string \<Rightarrow> (string \<times> string) option" where
  "split_scheme s =
     (if prefix ''https://'' s then Some (''https'', drop 8 s)
      else if prefix ''http://'' s then Some (''http'', drop 7 s)
      else None)"

definition split_host_path :: "string \<Rightarrow> string \<times> string" where
  "split_host_path rest =
     (let host = takeWhile (\<lambda>c. c \<noteq> CHR ''/'') rest;
          p = dropWhile (\<lambda>c. c \<noteq> CHR ''/'') rest
      in (host, if p = [] then ''/'' else p))"

definition plain_parse :: "string \<Rightarrow> url option" where
  "plain_parse raw =
     (let (s1, frag) = split_first (CHR ''#'') raw;
          (s2, qry) = split_first (CHR ''?'') s1
      in case split_scheme s2 of
           None \<Rightarrow> None
         | Some (scheme, rest) \<Rightarrow>
             (let (host, path) = split_host_path rest
              in if valid_host host \<and> valid_path path \<and> valid_query qry \<and> valid_fragment frag
                 then Some \<lparr>url_scheme = scheme, url_host = host, url_path = path,
                             url_query = qry, url_fragment = frag\<rparr>
                 else None))"

definition plain_href :: "url \<Rightarrow> string" where
  "plain_href u =
     url_scheme u @ ''://'' @ url_host u @ url_path u @
     (case url_query u of None \<Rightarrow> [] | Some q \<Rightarrow> CHR ''?'' # q) @
     (case url_fragment u of None \<Rightarrow> [] | Some f \<Rightarrow> CHR ''#'' # f)"

text \<open>The empty string removes the fragment, which is all the crawlers assign; any other
  value becomes the fragment, without its leading \<^verbatim>\<open>#\<close>.\<close>

definition plain_set_hash :: "url \<Rightarrow> string \<Rightarrow> url" where
  "plain_set_hash u v =
     (case v of
        [] \<Rightarrow> u\<lparr>url_fragment := None\<rparr>
      | c # r \<Rightarrow> u\<lparr>url_fragment := Some (if c = CHR ''#'' then r else v)\<rparr>)"

text \<open>A value that is a host of the class becomes the host; any other value is refused,
  as the platform refuses the empty string for an http(s) URL. The crawlers assign what
  follows \<^verbatim>\<open>www.\<close> in a host name.\<close>

definition plain_set_hostname :: "url \<Rightarrow> string \<Rightarrow> url" where
  "plain_set_hostname u v = (if valid_host v then u\<lparr>url_host := v\<rparr> else u)"

definition plain_urls :: "url url_class" where
  "plain_urls =
     \<lparr>parse = plain_parse, href = plain_href, hostname = url_host,
      set_hash = plain_set_hash, set_hostname = plain_set_hostname\<rparr>"

text \<open>The objects of the class: every component is one the parser accepts.\<close>

definition wf_url :: "url \<Rightarrow> bool" where
  "wf_url u =
     (url_scheme u \<in> {''http'', ''https''} \<and> valid_host (url_host u) \<and>
      valid_path (url_path u) \<and> valid_query (url_query u) \<and> valid_fragment (url_fragment u))"

text \<open>The serialisation up to the query.\<close>

definition authority_path :: "url \<Rightarrow> string" where
  "authority_path u = url_scheme u @ ''://'' @ url_host u @ url_path u"

section \<open>Results, pages and the browser\<close>

text \<open>The shared types of the rule files (\<^verbatim>\<open>NodeResult\<close>, \<^verbatim>\<open>Violation\<close>, \<^verbatim>\<open>PageResult\<close>).
  An optional field is an \<open>option\<close>. The stage-1 crawler declares \<^verbatim>\<open>violations?\<close> optional
  and the modular one does not, so the field is an \<open>option\<close> that the modular crawler
  always fills.\<close>

record node_result =
  html :: string
  target :: "string list"
  failureSummary :: "string option"

record violation =
  rule_id :: string
  description :: "string option"
  impact :: "string option"
  nodes :: "node_result list"

record page_result =
  url :: string
  timestamp :: string
  violations :: "violation list option"
  error :: "string option"

text \<open>
  What the rules observe of an element of the rendered document: whether it is an SVG
  element rather than an HTML element, its tag name, its attributes, the reflected
  \<^verbatim>\<open>tabIndex\<close> and \<^verbatim>\<open>outerHTML\<close>, the size of \<^verbatim>\<open>getBoundingClientRect()\<close> in CSS pixels,
  and the \<^verbatim>\<open>display\<close> and \<^verbatim>\<open>visibility\<close> of \<^verbatim>\<open>getComputedStyle\<close>. The sizes are
  finite doubles, taken as the real numbers they denote: the rule only compares them with
  constants and rounds them.
\<close>

record element =
  svg :: bool
  tagName :: string
  attributes :: "(string \<times> string) list"
  tabIndex :: int
  outerHTML :: string
  rect_width :: real
  rect_height :: real
  display :: string
  visibility :: string

text \<open>
  What the crawlers and the rules observe of a loaded page. A call into the page either
  returns or rejects with a message (\<open>Inl\<close>): \<open>anchors\<close> is
  \<^verbatim>\<open>page.$$eval("a[href]", ...)\<close>, the \<^verbatim>\<open>href\<close> property of every anchor in document
  order (one that is not a string, as that of an SVG anchor, is the string \<^verbatim>\<open>new URL\<close>
  makes of it), and \<open>axe\<close> is the run of the axe-core engine in the page. \<open>elements\<close> is
  the document, in document order, and \<open>type_error\<close> is the message with which
  \<^verbatim>\<open>page.evaluate\<close> rejects when the function it runs in the page throws a
  \<^verbatim>\<open>TypeError\<close>.
\<close>

record page =
  anchors :: "string + string list"
  axe :: "string + violation list"
  elements :: "element list"
  type_error :: string

text \<open>
  The world outside the process: \<open>goto\<close> is \<^verbatim>\<open>page.goto(url, ...)\<close>, which rejects with
  a message on a network failure or on the 45 s navigation timeout, and \<open>now n\<close> is
  \<^verbatim>\<open>new Date().toISOString()\<close> at the moment the record after \<open>n\<close> earlier ones is built.
  Console output is not modelled.
\<close>

record env =
  goto :: "string \<Rightarrow> string + page"
  now :: "nat \<Rightarrow> string"

text \<open>A JavaScript \<^verbatim>\<open>Set<string>\<close> is the list of its elements in insertion order;
  \<^verbatim>\<open>set.add(x)\<close> appends \<open>x\<close> unless it is there, \<^verbatim>\<open>set.size\<close> is the length.\<close>

definition set_add :: "string list \<Rightarrow> string \<Rightarrow> string list" where
  "set_add xs x = (if x \<in> set xs then xs else xs @ [x])"

text \<open>
  A JavaScript number: \<^verbatim>\<open>maxPages\<close> is whatever \<^verbatim>\<open>Number\<close> makes of the command line
  option (yargs, \<^verbatim>\<open>type: "number"\<close>), and nothing in the source checks it. It can be a
  fraction, negative, an infinity or \<^verbatim>\<open>NaN\<close>. A finite double is the real number it
  denotes. \<open>js_less a b\<close> is \<^verbatim>\<open>a < b\<close> and \<open>js_ge a b\<close> is \<^verbatim>\<open>a >= b\<close> for a finite \<open>a\<close>;
  every comparison with \<^verbatim>\<open>NaN\<close> is false.
\<close>

datatype js_number = Num real | PosInf | NegInf | NaN

definition js_less :: "real \<Rightarrow> js_number \<Rightarrow> bool" where
  "js_less a b = (case b of Num r \<Rightarrow> a < r | PosInf \<Rightarrow> True | NegInf \<Rightarrow> False | NaN \<Rightarrow> False)"

definition js_ge :: "real \<Rightarrow> js_number \<Rightarrow> bool" where
  "js_ge a b = (case b of Num r \<Rightarrow> r \<le> a | PosInf \<Rightarrow> False | NegInf \<Rightarrow> True | NaN \<Rightarrow> False)"

section \<open>The rules\<close>

text \<open>A \<^verbatim>\<open>RuleFunction\<close>: the promise resolves to violations or rejects with a message.\<close>

type_synonym rule_function = "page \<Rightarrow> string + violation list"

text \<open>\<^verbatim>\<open>toLowerCase\<close>, on the ASCII letters; tag and attribute names are ASCII.\<close>

definition toLowerCase :: "string \<Rightarrow> string" where
  "toLowerCase s =
     map (\<lambda>c. case map_of (zip ''ABCDEFGHIJKLMNOPQRSTUVWXYZ'' ''abcdefghijklmnopqrstuvwxyz'') c of
                None \<Rightarrow> c | Some l \<Rightarrow> l) s"

definition getAttribute :: "element \<Rightarrow> string \<Rightarrow> string option" where
  "getAttribute el name = map_of (attributes el) name"

definition hasAttribute :: "element \<Rightarrow> string \<Rightarrow> bool" where
  "hasAttribute el name = (getAttribute el name \<noteq> None)"

text \<open>\<^verbatim>\<open>el.id\<close> reflects the attribute \<^verbatim>\<open>id\<close>.\<close>

definition element_id :: "element \<Rightarrow> string" where
  "element_id el = (case getAttribute el ''id'' of None \<Rightarrow> [] | Some v \<Rightarrow> v)"

text \<open>
  \<^verbatim>\<open>el.className\<close> reflects the attribute \<^verbatim>\<open>class\<close> of an HTML element as a string. On an
  SVG element it is an \<^verbatim>\<open>SVGAnimatedString\<close> object, which has no method \<^verbatim>\<open>includes\<close>:
  \<open>None\<close>.
\<close>

definition className :: "element \<Rightarrow> string option" where
  "className el =
     (if svg el then None
      else Some (case getAttribute el ''class'' of None \<Rightarrow> [] | Some v \<Rightarrow> v))"

text \<open>A type selector matches the tag name of an HTML element whatever its case, and
  that of any other element as it is written.\<close>

definition has_tag :: "element \<Rightarrow> string \<Rightarrow> bool" where
  "has_tag el t = (if svg el then tagName el = t else toLowerCase (tagName el) = t)"

text \<open>The wrapper of the axe-core engine (\<^verbatim>\<open>axeRule\<close>): it copies the engine's records
  field by field.\<close>

definition axeRule :: rule_function where
  "axeRule pg =
     (case axe pg of
        Inl msg \<Rightarrow> Inl msg
      | Inr vs \<Rightarrow>
          Inr (map (\<lambda>v. \<lparr>rule_id = rule_id v, description = description v, impact = impact v,
                          nodes = map (\<lambda>n. \<lparr>html = html n, target = target n,
                                               failureSummary = failureSummary n\<rparr>) (nodes v)\<rparr>) vs))"

text \<open>\<^verbatim>\<open>rule_1_4_2_audio\<close>: \<^verbatim>\<open>audio\<close> and \<^verbatim>\<open>video\<close> elements with \<^verbatim>\<open>autoplay\<close> and without
  \<^verbatim>\<open>controls\<close>, all in one violation.\<close>

definition rule_1_4_2_audio :: rule_function where
  "rule_1_4_2_audio pg =
     (let offenders =
            map (\<lambda>el. take 200 (outerHTML el))
              (filter (\<lambda>el. hasAttribute el ''autoplay'' \<and> \<not> hasAttribute el ''controls'')
                 (filter (\<lambda>el. has_tag el ''audio'' \<or> has_tag el ''video'') (elements pg)))
      in if offenders = [] then Inr []
         else Inr [\<lparr>rule_id = ''1.4.2'',
                     description =
                       Some ''Autoplay media >3 s without independent pause/volume control'',
                     impact = Some ''serious'',
                     nodes = map (\<lambda>h. \<lparr>html = h, target = [], failureSummary = None\<rparr>)
                               offenders\<rparr>])"

text \<open>Decimal digits of a number, as a template literal prints an integer below
  \<open>10\<^sup>2\<^sup>1\<close> (the size of a box is far below), and \<^verbatim>\<open>Math.round\<close>, which rounds a half
  up.\<close>

fun show_nat :: "nat \<Rightarrow> string" where
  "show_nat n =
     (if n < 10 then [''0123456789'' ! n] else show_nat (n div 10) @ [''0123456789'' ! (n mod 10)])"

definition show_int :: "int \<Rightarrow> string" where
  "show_int i = (if i < 0 then CHR ''-'' # show_nat (nat (- i)) else show_nat (nat i))"

definition math_round :: "real \<Rightarrow> int" where
  "math_round x = \<lfloor>x + 1 / 2\<rfloor>"

text \<open>The selector list of \<^verbatim>\<open>rule_2_5_8_targetSizeMin\<close>:
  \<^verbatim>\<open>a[href], button, input[type=submit], input[type=button], [role="button"], [onclick]\<close>.
  On an HTML element the value of \<^verbatim>\<open>type\<close> is compared without regard to case.\<close>

definition type_is :: "element \<Rightarrow> string \<Rightarrow> bool" where
  "type_is el t =
     (if svg el then getAttribute el ''type'' = Some t
      else map_option toLowerCase (getAttribute el ''type'') = Some t)"

definition interactive :: "element \<Rightarrow> bool" where
  "interactive el =
     (has_tag el ''a'' \<and> hasAttribute el ''href'' \<or>
      has_tag el ''button'' \<or>
      has_tag el ''input'' \<and> type_is el ''submit'' \<or>
      has_tag el ''input'' \<and> type_is el ''button'' \<or>
      getAttribute el ''role'' = Some ''button'' \<or>
      hasAttribute el ''onclick'')"

definition MIN_SIZE :: real where
  "MIN_SIZE = 24"

text \<open>The condition of the \<^verbatim>\<open>if\<close> in the loop over the interactive elements, for an
  element whose \<^verbatim>\<open>className\<close> is the string \<open>cls\<close>.\<close>

definition too_small :: "element \<Rightarrow> string \<Rightarrow> bool" where
  "too_small el cls =
     (let width = rect_width el; height = rect_height el;
          isInline = (display el = ''inline'');
          visible = (display el \<noteq> ''none'' \<and> visibility el \<noteq> ''hidden'' \<and>
                     rect_width el > 0 \<and> rect_height el > 0);
          isVisuallyHiddenFocusable = (sublist ''visually-hidden'' cls \<and> tabIndex el \<ge> 0)
      in (width < MIN_SIZE \<or> height < MIN_SIZE) \<and>
         \<not> isInline \<and> visible \<and> \<not> isVisuallyHiddenFocusable)"

definition target_size_node :: "element \<Rightarrow> node_result" where
  "target_size_node el =
     \<lparr>html = take 300 (outerHTML el),
      target = [toLowerCase (tagName el) @
                (if element_id el \<noteq> [] then CHR ''#'' # element_id el else [])],
      failureSummary =
        Some (''Pointer target is only '' @ show_int (math_round (rect_width el)) @ ''x'' @
              show_int (math_round (rect_height el)) @ ''px. Must be at least 24x24px.'')\<rparr>"

text \<open>
  The loop \<^verbatim>\<open>for (const el of interactive)\<close> of the function that runs in the page, with
  the array \<^verbatim>\<open>violations\<close> as accumulator. Every iteration evaluates
  \<^verbatim>\<open>el.className.includes("visually-hidden")\<close> before the \<^verbatim>\<open>if\<close>; on an SVG element that
  call throws a \<^verbatim>\<open>TypeError\<close>, which ends the loop: \<open>None\<close>.
\<close>

fun target_size_loop :: "element list \<Rightarrow> node_result list \<Rightarrow> node_result list option" where
  "target_size_loop [] acc = Some acc"
| "target_size_loop (el # els) acc =
     (case className el of
        None \<Rightarrow> None
      | Some cls \<Rightarrow>
          target_size_loop els (if too_small el cls then acc @ [target_size_node el] else acc))"

text \<open>\<^verbatim>\<open>rule_2_5_8_targetSizeMin\<close>: one violation for each node the loop collected; when
  the function in the page throws, \<^verbatim>\<open>page.evaluate\<close> rejects and so does the rule.\<close>

definition rule_2_5_8_targetSizeMin :: rule_function where
  "rule_2_5_8_targetSizeMin pg =
     (case target_size_loop (filter interactive (elements pg)) [] of
        None \<Rightarrow> Inl (type_error pg)
      | Some result \<Rightarrow>
          Inr (map (\<lambda>v. \<lparr>rule_id = ''2.5.8'', description = Some ''Target Size (Minimum)'',
                           impact = Some ''moderate'', nodes = [v]\<rparr>) result))"

section \<open>The modular crawler\<close>

text \<open>\<^verbatim>\<open>extractLinks\<close> (lines 72-80). A string is truthy when it is not empty.\<close>

definition extractLinks :: "'u url_class \<Rightarrow> page \<Rightarrow> string \<Rightarrow> string + string list" where
  "extractLinks U pg base =
     (case anchors pg of
        Inl msg \<Rightarrow> Inl msg
      | Inr hrefs \<Rightarrow>
          Inr (foldl (\<lambda>acc h.
                 case normalizeUrl U h of
                   None \<Rightarrow> acc
                 | Some clean \<Rightarrow>
                     if clean \<noteq> [] \<and> sameDomain U clean base then set_add acc clean else acc)
               [] hrefs))"

record crawl_state =
  queue :: "string list"
  visited :: "string list"
  results :: "page_result list"

text \<open>The callback of \<^verbatim>\<open>newLinks.forEach\<close> (lines 114-123), as a function of the queue.\<close>

definition enqueue ::
  "'u url_class \<Rightarrow> js_number \<Rightarrow> string list \<Rightarrow> string list \<Rightarrow> string \<Rightarrow> string list"
where
  "enqueue U maxPages vis q l =
     (if js_ge (real (length vis + length q)) maxPages then q
      else case normalizeUrl U l of
             None \<Rightarrow> q
           | Some clean \<Rightarrow>
               if clean \<noteq> [] \<and> clean \<notin> set vis \<and> clean \<notin> set q
               then (if list_ex (\<lambda>x. normalizeUrl U x = Some clean) q then q else q @ [clean])
               else q)"

text \<open>
  One iteration of the \<^verbatim>\<open>while\<close> loop (lines 100-127), entered with a non-empty queue.
  The calls that run the rules of the tier and push the record of a scanned page are
  commented out in the source (lines 108-111), so a page that loads adds no record. An
  exception of \<^verbatim>\<open>page.goto\<close> or of \<^verbatim>\<open>extractLinks\<close> reaches the \<^verbatim>\<open>catch\<close>.
\<close>

definition crawl_step ::
  "'u url_class \<Rightarrow> env \<Rightarrow> string \<Rightarrow> js_number \<Rightarrow> crawl_state \<Rightarrow> crawl_state"
where
  "crawl_step U e domain maxPages s =
     (case queue s of
        [] \<Rightarrow> s
      | u # rest \<Rightarrow>
          if u \<in> set (visited s) then s\<lparr>queue := rest\<rparr>
          else
            (let vis = set_add (visited s) u;
                 failed = (\<lambda>msg. s\<lparr>queue := rest, visited := vis,
                   results := results s @
                     [\<lparr>url = u, timestamp = now e (length (results s)),
                       violations = Some [], error = Some msg\<rparr>]\<rparr>)
             in case goto e u of
                  Inl msg \<Rightarrow> failed msg
                | Inr pg \<Rightarrow>
                    (case extractLinks U pg domain of
                       Inl msg \<Rightarrow> failed msg
                     | Inr newLinks \<Rightarrow>
                         s\<lparr>queue := foldl (enqueue U maxPages vis) rest newLinks,
                           visited := vis\<rparr>)))"

text \<open>
  The \<^verbatim>\<open>while\<close> loop (line 99): it runs while the queue is not empty and
  \<^verbatim>\<open>visited.size < max\<close>. With \<^verbatim>\<open>max\<close> infinite nothing but the site ends the loop, and
  a site need not run out of new links: the result is an \<open>option\<close>, and \<open>None\<close> is a run
  that does not return.
\<close>

partial_function (option) crawl_loop ::
  "'u url_class \<Rightarrow> env \<Rightarrow> string \<Rightarrow> js_number \<Rightarrow> crawl_state \<Rightarrow> crawl_state option"
where
  "crawl_loop U e domain maxPages s =
     (if queue s \<noteq> [] \<and> js_less (real (length (visited s))) maxPages
      then crawl_loop U e domain maxPages (crawl_step U e domain maxPages s)
      else Some s)"

declare crawl_loop.simps [code]

text \<open>The ways in which the main function ends before the loop: \<^verbatim>\<open>normalizeUrl\<close> returned
  nothing for the seed, or \<^verbatim>\<open>new URL(seed)\<close> threw.\<close>

datatype crawl_error = InvalidSeedURL | InvalidURL

text \<open>
  The main function (lines 83-133): the state in which the loop ends, and the array written
  to the output file. \<open>activeRules\<close> is \<^verbatim>\<open>tiers[argv.tier]\<close>, which the loop never
  uses. \<^verbatim>\<open>argv.domain || new URL(seed).hostname\<close> takes the host of the seed when no
  domain, or an empty one, is given. Every way out before the loop is an exception that
  ends the process.
\<close>

definition crawl_final ::
  "'u url_class \<Rightarrow> env \<Rightarrow> string \<Rightarrow> string option \<Rightarrow> js_number \<Rightarrow> rule_function list \<Rightarrow>
   (crawl_error + crawl_state) option"
where
  "crawl_final U e start domainArg maxPages activeRules =
     (case normalizeUrl U start of
        None \<Rightarrow> Some (Inl InvalidSeedURL)
      | Some seed \<Rightarrow>
          if seed = [] then Some (Inl InvalidSeedURL)
          else
            (case (if domainArg \<noteq> None \<and> domainArg \<noteq> Some [] then domainArg
                   else map_option (hostname U) (parse U seed)) of
               None \<Rightarrow> Some (Inl InvalidURL)
             | Some domain \<Rightarrow>
                 map_option Inr
                   (crawl_loop U e domain maxPages \<lparr>queue = [seed], visited = [], results = []\<rparr>)))"

definition crawl ::
  "'u url_class \<Rightarrow> env \<Rightarrow> string \<Rightarrow> string option \<Rightarrow> js_number \<Rightarrow> rule_function list \<Rightarrow>
   (crawl_error + page_result list) option"
where
  "crawl U e start domainArg maxPages activeRules =
     map_option (map_sum id results) (crawl_final U e start domainArg maxPages activeRules)"

section \<open>The stage-1 crawler\<close>

text \<open>\<^verbatim>\<open>extractLinks\<close> (lines 242-250).\<close>

definition extractLinks_stage1 :: "'u url_class \<Rightarrow> page \<Rightarrow> string \<Rightarrow> string + string list" where
  "extractLinks_stage1 U pg baseDomain =
     (case anchors pg of
        Inl msg \<Rightarrow> Inl msg
      | Inr hrefs \<Rightarrow>
          Inr (foldl (\<lambda>links h.
                 case normalizeUrl_stage1 U h of
                   None \<Rightarrow> links
                 | Some clean \<Rightarrow>
                     if clean \<noteq> [] \<and> isSameDomain U clean baseDomain then set_add links clean
                     else links)
               [] hrefs))"

text \<open>\<^verbatim>\<open>runAxe\<close> (lines 252-265): the violations of the engine, as they are.\<close>

definition runAxe :: "page \<Rightarrow> string + violation list" where
  "runAxe pg = axe pg"

text \<open>The callback of \<^verbatim>\<open>newLinks.forEach\<close> (lines 313-323).\<close>

definition enqueue_stage1 ::
  "'u url_class \<Rightarrow> js_number \<Rightarrow> string list \<Rightarrow> string list \<Rightarrow> string \<Rightarrow> string list"
where
  "enqueue_stage1 U maxPages vis q link =
     (case normalizeUrl_stage1 U link of
        None \<Rightarrow> q
      | Some clean \<Rightarrow>
          if clean \<noteq> [] \<and> clean \<notin> set vis \<and> clean \<notin> set q \<and>
             js_less (real (length q)) maxPages
          then q @ [clean] else q)"

text \<open>
  One iteration of the \<^verbatim>\<open>while\<close> loop (lines 287-327). The record of a scanned page is
  pushed before the links are extracted, inside the same \<^verbatim>\<open>try\<close>: when
  \<^verbatim>\<open>extractLinks\<close> rejects after that, the \<^verbatim>\<open>catch\<close> pushes a second record for the
  page. The record of the \<^verbatim>\<open>catch\<close> has no \<^verbatim>\<open>violations\<close> field.
\<close>

definition crawl_step_stage1 ::
  "'u url_class \<Rightarrow> env \<Rightarrow> string \<Rightarrow> js_number \<Rightarrow> crawl_state \<Rightarrow> crawl_state"
where
  "crawl_step_stage1 U e baseDomain maxPages s =
     (case queue s of
        [] \<Rightarrow> s
      | u # rest \<Rightarrow>
          if u \<in> set (visited s) then s\<lparr>queue := rest\<rparr>
          else
            (let vis = set_add (visited s) u;
                 failed = (\<lambda>rs msg. s\<lparr>queue := rest, visited := vis,
                   results := rs @
                     [\<lparr>url = u, timestamp = now e (length rs),
                       violations = None, error = Some msg\<rparr>]\<rparr>)
             in case goto e u of
                  Inl msg \<Rightarrow> failed (results s) msg
                | Inr pg \<Rightarrow>
                    (case runAxe pg of
                       Inl msg \<Rightarrow> failed (results s) msg
                     | Inr vs \<Rightarrow>
                         (let record =
                                \<lparr>url = u, timestamp = now e (length (results s)),
                                 violations =
                                   Some (map (\<lambda>v. \<lparr>rule_id = rule_id v, description = description v,
                                                      impact = impact v,
                                                      nodes = map (\<lambda>n. \<lparr>html = html n,
                                                                 target = target n,
                                                                 failureSummary = failureSummary n\<rparr>)
                                                                (nodes v)\<rparr>) vs),
                                 error = None\<rparr>;
                              rs = results s @ [record]
                          in case extractLinks_stage1 U pg baseDomain of
                               Inl msg \<Rightarrow> failed rs msg
                             | Inr newLinks \<Rightarrow>
                                 s\<lparr>queue := foldl (enqueue_stage1 U maxPages vis) rest newLinks,
                                   visited := vis, results := rs\<rparr>))))"

text \<open>The \<^verbatim>\<open>while\<close> loop (line 286), with the same condition as in the modular crawler.\<close>

partial_function (option) crawl_loop_stage1 ::
  "'u url_class \<Rightarrow> env \<Rightarrow> string \<Rightarrow> js_number \<Rightarrow> crawl_state \<Rightarrow> crawl_state option"
where
  "crawl_loop_stage1 U e baseDomain maxPages s =
     (if queue s \<noteq> [] \<and> js_less (real (length (visited s))) maxPages
      then crawl_loop_stage1 U e baseDomain maxPages (crawl_step_stage1 U e baseDomain maxPages s)
      else Some s)"

declare crawl_loop_stage1.simps [code]

text \<open>The main function (lines 268-334); an invalid seed ends the process with status 1.\<close>

definition crawl_final_stage1 ::
  "'u url_class \<Rightarrow> env \<Rightarrow> string \<Rightarrow> string option \<Rightarrow> js_number \<Rightarrow>
   (crawl_error + crawl_state) option"
where
  "crawl_final_stage1 U e start domainArg maxPages =
     (case normalizeUrl_stage1 U start of
        None \<Rightarrow> Some (Inl InvalidSeedURL)
      | Some seedUrl \<Rightarrow>
          if seedUrl = [] then Some (Inl InvalidSeedURL)
          else
            (case (if domainArg \<noteq> None \<and> domainArg \<noteq> Some [] then domainArg
                   else map_option (hostname U) (parse U seedUrl)) of
               None \<Rightarrow> Some (Inl InvalidURL)
             | Some baseDomain \<Rightarrow>
                 map_option Inr
                   (crawl_loop_stage1 U e baseDomain maxPages
                      \<lparr>queue = [seedUrl], visited = [], results = []\<rparr>)))"

definition crawl_stage1 ::
  "'u url_class \<Rightarrow> env \<Rightarrow> string \<Rightarrow> string option \<Rightarrow> js_number \<Rightarrow>
   (crawl_error + page_result list) option"
where
  "crawl_stage1 U e start domainArg maxPages =
     map_option (map_sum id results) (crawl_final_stage1 U e start domainArg maxPages)"

section \<open>Tiers\<close>

text \<open>The tier table of the rule file that has the three rules above (its lines 192-197).\<close>

definition basic_tier :: "rule_function list" where
  "basic_tier = [axeRule]"

definition premium_tier :: "rule_function list" where
  "premium_tier = [axeRule, rule_1_4_2_audio, rule_2_5_8_targetSizeMin]"

section \<open>Runs of the crawl loop\<close>

text \<open>
  The states the loop passes through: the state before the first iteration, and the state
  after each iteration that the condition of the \<^verbatim>\<open>while\<close> lets in. \<open>step\<close> is the body
  of the loop of either crawler.
\<close>

inductive reachable ::
  "(crawl_state \<Rightarrow> crawl_state) \<Rightarrow> js_number \<Rightarrow> string \<Rightarrow> crawl_state \<Rightarrow> bool"
  for step :: "crawl_state \<Rightarrow> crawl_state" and maxPages :: js_number and seed :: string
where
  initial: "reachable step maxPages seed \<lparr>queue = [seed], visited = [], results = []\<rparr>"
| iteration: "reachable step maxPages seed s \<Longrightarrow> queue s \<noteq> [] \<Longrightarrow>
     js_less (real (length (visited s))) maxPages \<Longrightarrow> reachable step maxPages seed (step s)"

text \<open>
  The ceiling that \<^verbatim>\<open>maxPages\<close> puts on the number \<open>n\<close> of visited pages: a finite value
  rounded up, and not below zero; none when it is \<^verbatim>\<open>Infinity\<close>; zero when it is \<^verbatim>\<open>NaN\<close>
  or \<^verbatim>\<open>-Infinity\<close>.
\<close>

definition within_ceiling :: "nat \<Rightarrow> js_number \<Rightarrow> bool" where
  "within_ceiling n maxPages =
     (case maxPages of
        Num r \<Rightarrow> int n \<le> max 0 \<lceil>r\<rceil>
      | PosInf \<Rightarrow> True
      | NegInf \<Rightarrow> n = 0
      | NaN \<Rightarrow> n = 0)"

text \<open>
  The frontier invariant: neither the queue nor the visited set holds a URL twice, they
  share no URL, and the number of visited URLs is within the ceiling.
\<close>

definition frontier_inv :: "js_number \<Rightarrow> crawl_state \<Rightarrow> bool" where
  "frontier_inv maxPages s =
     (distinct (queue s) \<and> distinct (visited s) \<and> set (queue s) \<inter> set (visited s) = {} \<and>
      within_ceiling (length (visited s)) maxPages)"

text \<open>No URL has two records in the output, and every record is of a visited URL.\<close>

definition results_inv :: "crawl_state \<Rightarrow> bool" where
  "results_inv s = (distinct (map url (results s)) \<and> set (map url (results s)) \<subseteq> set (visited s))"

text \<open>No page that loads rejects the extraction of its links.\<close>

definition links_readable :: "env \<Rightarrow> bool" where
  "links_readable e = (\<forall>u pg msg. goto e u = Inr pg \<longrightarrow> anchors pg \<noteq> Inl msg)"

section \<open>A small site\<close>

text \<open>
  The seed links to A and B and to another domain, A links to C and back to the seed, C
  does not load. The axe engine reports one violation on the seed. All URLs of the site
  are plain.
\<close>

definition missing_alt :: violation where
  "missing_alt =
     \<lparr>rule_id = ''image-alt'', description = Some ''Images must have alternate text'',
      impact = Some ''critical'',
      nodes = [\<lparr>html = ''<img src=logo.png>'', target = [''img''],
                failureSummary = Some ''Fix any of the following''\<rparr>]\<rparr>"

text \<open>A page with the given anchors, axe run and elements.\<close>

definition page_with :: "string + string list \<Rightarrow> string + violation list \<Rightarrow> element list \<Rightarrow> page" where
  "page_with as ax els =
     \<lparr>anchors = as, axe = ax, elements = els,
      type_error = ''Evaluation failed: TypeError: el.className.includes is not a function''\<rparr>"

definition example_site :: "string \<Rightarrow> string + page" where
  "example_site u =
     (if u = ''https://a.gov/''
      then Inr (page_with (Inr [''https://a.gov/A#top'', ''https://a.gov/B'', ''https://other.com/''])
                  (Inr [missing_alt]) [])
      else if u = ''https://a.gov/A''
      then Inr (page_with (Inr [''https://a.gov/C'', ''https://a.gov/'']) (Inr []) [])
      else if u = ''https://a.gov/B''
      then Inr (page_with (Inr []) (Inr []) [])
      else Inl ''net::ERR_TIMED_OUT'')"

definition example_env :: env where
  "example_env = \<lparr>goto = example_site, now = show_nat\<rparr>"

text \<open>The same site, with an axe run that rejects on the seed.\<close>

definition axe_rejects_env :: env where
  "axe_rejects_env =
     \<lparr>goto = (\<lambda>u. if u = ''https://a.gov/''
                   then Inr (page_with (Inr [''https://a.gov/A'']) (Inl ''axe is not defined'') [])
                   else example_site u),
      now = show_nat\<rparr>"

text \<open>The same site, with a seed whose link extraction rejects.\<close>

definition links_reject_env :: env where
  "links_reject_env =
     \<lparr>goto = (\<lambda>u. if u = ''https://a.gov/''
                   then Inr (page_with (Inl ''Execution context was destroyed'')
                               (Inr [missing_alt]) [])
                   else example_site u),
      now = show_nat\<rparr>"

text \<open>An HTML anchor of 16 by 16 pixels, with the given \<^verbatim>\<open>display\<close>.\<close>

definition small_anchor :: "string \<Rightarrow> element" where
  "small_anchor disp =
     \<lparr>svg = False, tagName = ''A'', attributes = [(''href'', ''/next''), (''id'', ''next'')],
      tabIndex = 0, outerHTML = ''<a href=/next id=next>next</a>'', rect_width = 16,
      rect_height = 16, display = disp, visibility = ''visible''\<rparr>"

text \<open>A link inside an \<^verbatim>\<open>svg\<close> element, 40 by 40 pixels: an SVG element that the selector
  \<^verbatim>\<open>a[href]\<close> matches.\<close>

definition svg_link :: element where
  "svg_link =
     \<lparr>svg = True, tagName = ''a'', attributes = [(''href'', ''/map'')], tabIndex = 0,
      outerHTML = ''<a href=/map><circle r=20 /></a>'', rect_width = 40, rect_height = 40,
      display = ''inline'', visibility = ''visible''\<rparr>"

text \<open>An HTML element with the given tag, attributes, \<^verbatim>\<open>tabIndex\<close>, width, height and
  \<^verbatim>\<open>display\<close>.\<close>

definition html_element ::
  "string \<Rightarrow> (string \<times> string) list \<Rightarrow> int \<Rightarrow> real \<Rightarrow> real \<Rightarrow> string \<Rightarrow> element"
where
  "html_element tag attrs tabidx w h disp =
     \<lparr>svg = False, tagName = tag, attributes = attrs, tabIndex = tabidx,
      outerHTML = CHR ''<'' # toLowerCase tag @ ''>'', rect_width = w, rect_height = h,
      display = disp, visibility = ''visible''\<rparr>"

text \<open>
  The elements of a page of HTML controls: the two anchors of 16 by 16 pixels, inline and
  block; a small \<^verbatim>\<open>span\<close>, which no selector matches; a button 20 wide and 30 high; an
  element with the button role that is large enough; a submit input of 23.6 by 23.4
  pixels and a small text input; a focusable skip link and an unfocusable element with a
  click handler, both marked \<^verbatim>\<open>visually-hidden\<close> and one pixel wide and high; an element
  with a click handler that is not displayed; a small button that is hidden; and a small
  anchor without \<^verbatim>\<open>href\<close>.
\<close>

definition controls :: "element list" where
  "controls =
     [small_anchor ''inline'',
      small_anchor ''block'',
      html_element ''SPAN'' [] (- 1) 10 10 ''block'',
      html_element ''BUTTON'' [(''id'', ''go'')] 0 20 30 ''inline-block'',
      html_element ''DIV'' [(''role'', ''button'')] (- 1) 30 30 ''block'',
      html_element ''INPUT'' [(''type'', ''Submit'')] 0 (236 / 10) (234 / 10) ''inline-block'',
      html_element ''INPUT'' [(''type'', ''text'')] 0 10 10 ''inline-block'',
      html_element ''A'' [(''href'', ''#main''), (''class'', ''skip visually-hidden'')] 0 1 1
        ''block'',
      html_element ''DIV'' [(''onclick'', ''open()''), (''class'', ''visually-hidden'')] (- 1) 1 1
        ''block'',
      html_element ''DIV'' [(''onclick'', ''open()'')] (- 1) 0 0 ''none'',
      (html_element ''BUTTON'' [] 0 12 12 ''block'')\<lparr>visibility := ''hidden''\<rparr>,
      html_element ''A'' [] 0 5 5 ''block'']"

section \<open>The plain URL class: parsing a serialised URL gives the URL back\<close>

lemma takeWhile_until: "c \<notin> set a \<Longrightarrow> takeWhile (\<lambda>x. x \<noteq> c) (a @ c # r) = a"
  by (induction a) auto

lemma dropWhile_until: "c \<notin> set a \<Longrightarrow> dropWhile (\<lambda>x. x \<noteq> c) (a @ c # r) = c # r"
  by (induction a) auto

lemma split_first_absent: "c \<notin> set s \<Longrightarrow> split_first c s = (s, None)"
  by (induction s) (auto simp: split_first_def)

lemma split_first_present: "c \<notin> set a \<Longrightarrow> split_first c (a @ c # r) = (a, Some r)"
  by (simp add: split_first_def takeWhile_until dropWhile_until)

lemma valid_host_chars: "valid_host h \<Longrightarrow> set h \<subseteq> set host_chars"
  by (auto simp: valid_host_def list_all_iff)

lemma valid_path_chars: "valid_path p \<Longrightarrow> set p \<subseteq> set path_chars"
  by (auto simp: valid_path_def list_all_iff)

lemma valid_path_Cons: "valid_path p \<Longrightarrow> \<exists>r. p = CHR ''/'' # r"
  by (auto simp: valid_path_def prefix_def)

lemma hash_notin_host: "CHR ''#'' \<notin> set host_chars"
  by (simp add: host_chars_def)

lemma qmark_notin_host: "CHR ''?'' \<notin> set host_chars"
  by (simp add: host_chars_def)

lemma slash_notin_host: "CHR ''/'' \<notin> set host_chars"
  by (simp add: host_chars_def)

lemma hash_notin_path: "CHR ''#'' \<notin> set path_chars"
  by (simp add: path_chars_def)

lemma qmark_notin_path: "CHR ''?'' \<notin> set path_chars"
  by (simp add: path_chars_def)

lemma hash_notin_query: "CHR ''#'' \<notin> set query_chars"
  by (simp add: query_chars_def path_chars_def)

lemma authority_path_avoids:
  assumes "wf_url u" and "c \<notin> set host_chars" and "c \<notin> set path_chars"
  shows "c \<notin> set (authority_path u)"
proof -
  from assms(1) have h: "set (url_host u) \<subseteq> set host_chars"
    and p: "set (url_path u) \<subseteq> set path_chars"
    by (simp_all add: wf_url_def valid_host_chars valid_path_chars)
  have colon: "CHR '':'' \<in> set path_chars" and slash: "CHR ''/'' \<in> set path_chars"
    by (simp_all add: path_chars_def)
  have "set ''https'' \<subseteq> set path_chars" by (simp add: path_chars_def)
  moreover from assms(1) have "set (url_scheme u) \<subseteq> set ''https''"
    by (auto simp: wf_url_def)
  ultimately have s: "set (url_scheme u) \<subseteq> set path_chars" by (rule order.trans[rotated])
  have "set (authority_path u) \<subseteq> set host_chars \<union> set path_chars"
    using h p s colon slash by (auto simp: authority_path_def)
  with assms(2,3) show ?thesis by blast
qed

lemma authority_path_no_hash: "wf_url u \<Longrightarrow> CHR ''#'' \<notin> set (authority_path u)"
  by (rule authority_path_avoids[OF _ hash_notin_host hash_notin_path])

lemma authority_path_no_qmark: "wf_url u \<Longrightarrow> CHR ''?'' \<notin> set (authority_path u)"
  by (rule authority_path_avoids[OF _ qmark_notin_host qmark_notin_path])

lemma split_scheme_authority:
  "wf_url u \<Longrightarrow> split_scheme (authority_path u) = Some (url_scheme u, url_host u @ url_path u)"
  by (auto simp: wf_url_def authority_path_def split_scheme_def)

lemma host_path_split:
  assumes "wf_url u"
  shows "split_host_path (url_host u @ url_path u) = (url_host u, url_path u)"
proof -
  from assms obtain r where p: "url_path u = CHR ''/'' # r"
    using valid_path_Cons[of "url_path u"] by (auto simp: wf_url_def)
  from assms have h: "CHR ''/'' \<notin> set (url_host u)"
    using slash_notin_host valid_host_chars[of "url_host u"] by (auto simp: wf_url_def)
  show ?thesis
    unfolding p split_host_path_def
    by (simp only: takeWhile_until[OF h] dropWhile_until[OF h] Let_def list.simps if_False)
qed

lemma split_query:
  assumes "wf_url u"
  shows "split_first (CHR ''?'')
           (authority_path u @ (case url_query u of None \<Rightarrow> [] | Some q \<Rightarrow> CHR ''?'' # q))
         = (authority_path u, url_query u)"
  using authority_path_no_qmark[OF assms]
  by (cases "url_query u") (simp_all add: split_first_absent split_first_present)

lemma before_fragment_no_hash:
  assumes "wf_url u"
  shows "CHR ''#'' \<notin> set (authority_path u @
                            (case url_query u of None \<Rightarrow> [] | Some q \<Rightarrow> CHR ''?'' # q))"
proof -
  have q: "CHR ''#'' \<notin> set (case url_query u of None \<Rightarrow> [] | Some q \<Rightarrow> CHR ''?'' # q)"
    using assms hash_notin_query
    by (auto simp: wf_url_def valid_query_def list_all_iff split: option.splits)
  show ?thesis
    using authority_path_no_hash[OF assms] q by simp
qed

lemma plain_href_split:
  "plain_href u =
     (authority_path u @ (case url_query u of None \<Rightarrow> [] | Some q \<Rightarrow> CHR ''?'' # q)) @
     (case url_fragment u of None \<Rightarrow> [] | Some f \<Rightarrow> CHR ''#'' # f)"
  by (simp add: plain_href_def authority_path_def)

lemma split_fragment:
  assumes "wf_url u"
  shows "split_first (CHR ''#'') (plain_href u)
         = (authority_path u @ (case url_query u of None \<Rightarrow> [] | Some q \<Rightarrow> CHR ''?'' # q),
            url_fragment u)"
proof (cases "url_fragment u")
  case None
  then show ?thesis
    using split_first_absent[OF before_fragment_no_hash[OF assms]]
    by (simp add: plain_href_split)
next
  case (Some f)
  then show ?thesis
    using split_first_present[OF before_fragment_no_hash[OF assms], of f]
    by (simp add: plain_href_split)
qed

lemma plain_parse_href: "wf_url u \<Longrightarrow> plain_parse (plain_href u) = Some u"
proof -
  assume w: "wf_url u"
  then have v: "valid_host (url_host u)" "valid_path (url_path u)"
    "valid_query (url_query u)" "valid_fragment (url_fragment u)"
    by (simp_all add: wf_url_def)
  show ?thesis
    by (simp add: plain_parse_def split_fragment[OF w] split_query[OF w]
        split_scheme_authority[OF w] host_path_split[OF w] v)
qed

lemma split_scheme_Some:
  "split_scheme s = Some (sch, r) \<Longrightarrow> sch = ''http'' \<or> sch = ''https''"
  by (simp add: split_scheme_def split: if_splits)

lemma plain_parse_wf:
  assumes "plain_parse s = Some u"
  shows "wf_url u"
proof -
  obtain s1 frag where f: "split_first (CHR ''#'') s = (s1, frag)" by fastforce
  obtain s2 qry where q: "split_first (CHR ''?'') s1 = (s2, qry)" by fastforce
  from assms f q obtain sch r where sc: "split_scheme s2 = Some (sch, r)"
    by (cases "split_scheme s2") (auto simp: plain_parse_def)
  obtain h p where hp: "split_host_path r = (h, p)" by fastforce
  from assms have u: "valid_host h \<and> valid_path p \<and> valid_query qry \<and> valid_fragment frag"
    and "u = \<lparr>url_scheme = sch, url_host = h, url_path = p, url_query = qry, url_fragment = frag\<rparr>"
    by (simp_all add: plain_parse_def f q sc hp split: if_splits)
  then show ?thesis
    using split_scheme_Some[OF sc] by (simp add: wf_url_def)
qed

lemma plain_set_hash_empty: "plain_set_hash u [] = u\<lparr>url_fragment := None\<rparr>"
  by (simp add: plain_set_hash_def)

lemma plain_set_hash_wf: "wf_url u \<Longrightarrow> wf_url (plain_set_hash u [])"
  by (simp add: plain_set_hash_empty wf_url_def valid_fragment_def)

lemma plain_set_hostname_wf: "wf_url u \<Longrightarrow> wf_url (plain_set_hostname u v)"
  by (simp add: plain_set_hostname_def wf_url_def)

lemma plain_href_no_hash: "wf_url u \<Longrightarrow> CHR ''#'' \<notin> set (plain_href (plain_set_hash u []))"
  using before_fragment_no_hash[of u]
  by (simp add: plain_set_hash_empty plain_href_def authority_path_def)

lemma plain_parse_add_fragment:
  assumes "CHR ''#'' \<notin> set x"
  shows "plain_parse (x @ CHR ''#'' # f) =
         (if valid_fragment (Some f)
          then map_option (\<lambda>u. u\<lparr>url_fragment := Some f\<rparr>) (plain_parse x) else None)"
proof -
  obtain s2 qry where q: "split_first (CHR ''?'') x = (s2, qry)" by fastforce
  have n: "valid_fragment None" by (simp add: valid_fragment_def)
  show ?thesis
  proof (cases "split_scheme s2")
    case None
    then show ?thesis
      by (simp add: plain_parse_def split_first_present[OF assms] split_first_absent[OF assms] q)
  next
    case (Some a)
    obtain sch r where a: "a = (sch, r)" by fastforce
    obtain h p where hp: "split_host_path r = (h, p)" by fastforce
    show ?thesis
      by (simp add: plain_parse_def split_first_present[OF assms] split_first_absent[OF assms]
          q Some a hp n)
  qed
qed

lemma plain_object_wf: "url_object plain_urls u \<Longrightarrow> wf_url u"
proof (induction rule: url_object.induct)
  case (parsed s u)
  then show ?case by (simp add: plain_urls_def plain_parse_wf)
next
  case (hash_cleared u)
  then show ?case by (simp add: plain_urls_def plain_set_hash_wf)
next
  case (hostname_set u v)
  then show ?case by (simp add: plain_urls_def plain_set_hostname_wf)
qed

lemma plain_append_fragment:
  assumes "wf_url u" and "plain_parse (plain_href (plain_set_hash u []) @ CHR ''#'' # f) = Some w"
  shows "plain_set_hash w [] = plain_set_hash u []"
proof -
  let ?v = "plain_set_hash u []"
  have wf: "wf_url ?v" using assms(1) by (rule plain_set_hash_wf)
  have "plain_parse (plain_href ?v) = Some ?v" using wf by (rule plain_parse_href)
  with assms(2) plain_parse_add_fragment[OF plain_href_no_hash[OF assms(1)], of f]
  have "w = ?v\<lparr>url_fragment := Some f\<rparr>"
    by (simp split: if_splits)
  then show ?thesis by (simp add: plain_set_hash_empty)
qed

text \<open>The plain URL class satisfies the laws.\<close>

lemma plain_urls_laws: "url_laws plain_urls"
  unfolding url_laws_def
proof (intro allI impI conjI)
  fix u :: url
  assume "url_object plain_urls u"
  then have w: "wf_url u" by (rule plain_object_wf)
  show "parse plain_urls (href plain_urls u) = Some u"
    using w by (simp add: plain_urls_def plain_parse_href)
  show "set_hash plain_urls (set_hash plain_urls u []) [] = set_hash plain_urls u []"
    by (simp add: plain_urls_def plain_set_hash_empty)
  show "hostname plain_urls (set_hash plain_urls u []) = hostname plain_urls u"
    by (simp add: plain_urls_def plain_set_hash_empty)
  show "CHR ''#'' \<notin> set (href plain_urls (set_hash plain_urls u []))"
    using w by (simp add: plain_urls_def plain_href_no_hash)
  show "set_hash plain_urls (set_hostname plain_urls u v) [] =
        set_hostname plain_urls (set_hash plain_urls u []) v" for v
    by (simp add: plain_urls_def plain_set_hash_empty plain_set_hostname_def)
  show "set_hash plain_urls w [] = set_hash plain_urls u []"
    if "parse plain_urls (href plain_urls (set_hash plain_urls u []) @ CHR ''#'' # f) = Some w"
    for f w
    using that w by (simp add: plain_urls_def plain_append_fragment)
  show "set_hostname plain_urls u (drop 4 (hostname plain_urls u)) = u \<or>
        hostname plain_urls (set_hostname plain_urls u (drop 4 (hostname plain_urls u))) =
          drop 4 (hostname plain_urls u) \<or>
        hostname plain_urls (set_hostname plain_urls u (drop 4 (hostname plain_urls u))) = []"
    by (simp add: plain_urls_def plain_set_hostname_def)
qed

text \<open>A string without a colon has no scheme: the class rejects it, as the platform does.\<close>

lemma no_scheme_unparsable:
  assumes "CHR '':'' \<notin> set s"
  shows "plain_parse s = None"
proof -
  obtain s1 frag where f: "split_first (CHR ''#'') s = (s1, frag)" by fastforce
  obtain s2 qry where q: "split_first (CHR ''?'') s1 = (s2, qry)" by fastforce
  from f have "set s1 \<subseteq> set s" by (auto simp: split_first_def dest: set_takeWhileD)
  moreover from q have "set s2 \<subseteq> set s1" by (auto simp: split_first_def dest: set_takeWhileD)
  ultimately have "CHR '':'' \<notin> set s2" using assms by blast
  then have "split_scheme s2 = None"
    by (auto simp: split_scheme_def prefix_def)
  then show ?thesis by (simp add: plain_parse_def f q)
qed

section \<open>Normalisation\<close>

lemma url_lawsD:
  assumes "url_laws U" and "url_object U u"
  shows "parse U (href U u) = Some u"
    and "set_hash U (set_hash U u []) [] = set_hash U u []"
    and "hostname U (set_hash U u []) = hostname U u"
    and "CHR ''#'' \<notin> set (href U (set_hash U u []))"
    and "set_hash U (set_hostname U u v) [] = set_hostname U (set_hash U u []) v"
    and "parse U (href U (set_hash U u []) @ CHR ''#'' # f) = Some w \<Longrightarrow>
         set_hash U w [] = set_hash U u []"
    and "prefix ''www.'' (hostname U u) \<Longrightarrow>
         set_hostname U u (drop 4 (hostname U u)) = u \<or>
         hostname U (set_hostname U u (drop 4 (hostname U u))) = drop 4 (hostname U u) \<or>
         hostname U (set_hostname U u (drop 4 (hostname U u))) = []"
  using assms unfolding url_laws_def by blast+

lemma normalizeUrl_normal_form:
  "normalizeUrl U raw = map_option (\<lambda>u. href U (normal_form U u)) (parse U raw)"
  by (simp add: normalizeUrl_def normal_form_def Let_def split: option.splits)

lemma normal_form_object: "url_object U u \<Longrightarrow> url_object U (normal_form U u)"
  by (simp add: normal_form_def Let_def url_object.hash_cleared url_object.hostname_set)

lemma normal_form_hash:
  assumes "url_laws U" and "url_object U u"
  shows "set_hash U (normal_form U u) [] = normal_form U u"
  using url_lawsD(2)[OF assms] url_lawsD(5)[OF assms(1) url_object.hash_cleared[OF assms(2)]]
  by (simp add: normal_form_def Let_def)

lemma www_twice:
  assumes "prefix ''www.'' h" and "prefix ''www.'' (drop 4 h)"
  shows "prefix ''www.www.'' h"
proof -
  from assms(1) obtain r where h: "h = ''www.'' @ r" by (auto simp: prefix_def)
  with assms(2) obtain t where "r = ''www.'' @ t" by (auto simp: prefix_def)
  with h show ?thesis by (simp add: prefix_def)
qed

lemma normal_form_idem:
  assumes "url_laws U" and "url_object U u" and "\<not> prefix ''www.www.'' (hostname U u)"
  shows "normal_form U (normal_form U u) = normal_form U u"
proof -
  let ?u1 = "set_hash U u []"
  let ?h = "hostname U u"
  let ?n = "normal_form U u"
  have o1: "url_object U ?u1" using assms(2) by (rule url_object.hash_cleared)
  have h1: "hostname U ?u1 = ?h" using assms(1,2) by (rule url_lawsD(3))
  have n: "?n = (if prefix ''www.'' ?h then set_hostname U ?u1 (drop 4 ?h) else ?u1)"
    by (simp add: normal_form_def Let_def h1)
  have nn: "normal_form U ?n =
            (if prefix ''www.'' (hostname U ?n) then set_hostname U ?n (drop 4 (hostname U ?n))
             else ?n)"
    by (simp add: normal_form_def[of U ?n] Let_def normal_form_hash[OF assms(1,2)])
  show ?thesis
  proof (cases "prefix ''www.'' ?h")
    case False
    with n h1 have "?n = ?u1" and "hostname U ?n = ?h" by simp_all
    with False nn show ?thesis by simp
  next
    case True
    then have s: "?n = set_hostname U ?u1 (drop 4 ?h)" using n by simp
    from True have "prefix ''www.'' (hostname U ?u1)" by (simp add: h1)
    from url_lawsD(7)[OF assms(1) o1 this]
    consider "?n = ?u1" | "hostname U ?n = drop 4 ?h" | "hostname U ?n = []"
      by (auto simp: h1 s)
    then show ?thesis
    proof cases
      case 1
      then have "hostname U ?n = ?h" by (simp add: h1)
      with True nn have "normal_form U ?n = set_hostname U ?n (drop 4 ?h)" by simp
      also have "\<dots> = set_hostname U ?u1 (drop 4 ?h)" using 1 by simp
      also have "\<dots> = ?n" using s by simp
      finally show ?thesis .
    next
      case 2
      from assms(3) True have "\<not> prefix ''www.'' (drop 4 ?h)"
        using www_twice by blast
      with 2 nn show ?thesis by simp
    next
      case 3
      with nn show ?thesis by simp
    qed
  qed
qed

lemma normalizeUrl_idem:
  assumes "url_laws U" and "parse U x = Some u" and "\<not> prefix ''www.www.'' (hostname U u)"
    and "normalizeUrl U x = Some y"
  shows "normalizeUrl U y = Some y"
proof -
  have o: "url_object U u" using assms(2) by (rule url_object.parsed)
  from assms(2,4) have y: "y = href U (normal_form U u)"
    by (simp add: normalizeUrl_normal_form)
  have "parse U y = Some (normal_form U u)"
    unfolding y using assms(1) normal_form_object[OF o] by (rule url_lawsD(1))
  then show ?thesis
    by (simp add: normalizeUrl_normal_form normal_form_idem[OF assms(1) o assms(3)] y)
qed

lemma normalizeUrl_stage1_idem:
  assumes "url_laws U" and "normalizeUrl_stage1 U x = Some y"
  shows "normalizeUrl_stage1 U y = Some y"
proof -
  from assms(2) obtain u where u: "parse U x = Some u" and y: "y = href U (set_hash U u [])"
    by (auto simp: normalizeUrl_stage1_def split: option.splits)
  have o: "url_object U u" using u by (rule url_object.parsed)
  have "parse U y = Some (set_hash U u [])"
    unfolding y using assms(1) url_object.hash_cleared[OF o] by (rule url_lawsD(1))
  then show ?thesis
    by (simp add: normalizeUrl_stage1_def y url_lawsD(2)[OF assms(1) o])
qed

lemma normalizeUrl_no_hash:
  assumes "url_laws U" and "normalizeUrl U x = Some y"
  shows "CHR ''#'' \<notin> set y"
proof -
  from assms(2) obtain u where u: "parse U x = Some u" and y: "y = href U (normal_form U u)"
    by (auto simp: normalizeUrl_normal_form)
  have o: "url_object U u" using u by (rule url_object.parsed)
  have "CHR ''#'' \<notin> set (href U (set_hash U (normal_form U u) []))"
    using assms(1) normal_form_object[OF o] by (rule url_lawsD(4))
  then show ?thesis
    by (simp add: y normal_form_hash[OF assms(1) o])
qed

lemma normalizeUrl_stage1_no_hash:
  assumes "url_laws U" and "normalizeUrl_stage1 U x = Some y"
  shows "CHR ''#'' \<notin> set y"
proof -
  from assms(2) obtain u where u: "parse U x = Some u" and y: "y = href U (set_hash U u [])"
    by (auto simp: normalizeUrl_stage1_def split: option.splits)
  have o: "url_object U u" using u by (rule url_object.parsed)
  show ?thesis
    unfolding y using assms(1) o by (rule url_lawsD(4))
qed

lemma normal_form_depends_on_hash:
  "set_hash U a [] = set_hash U b [] \<Longrightarrow> normal_form U a = normal_form U b"
  by (simp add: normal_form_def)

lemma normalizeUrl_append_fragment:
  assumes "url_laws U" and "normalizeUrl U x = Some y" and "parse U (y @ CHR ''#'' # f) \<noteq> None"
  shows "normalizeUrl U (y @ CHR ''#'' # f) = normalizeUrl U y"
proof -
  from assms(2) obtain u where u: "parse U x = Some u" and y: "y = href U (normal_form U u)"
    by (auto simp: normalizeUrl_normal_form)
  have o: "url_object U (normal_form U u)"
    using u by (simp add: url_object.parsed normal_form_object)
  have h: "set_hash U (normal_form U u) [] = normal_form U u"
    using assms(1) url_object.parsed[OF u] by (rule normal_form_hash)
  from assms(3) obtain w where w: "parse U (y @ CHR ''#'' # f) = Some w" by auto
  then have "parse U (href U (set_hash U (normal_form U u) []) @ CHR ''#'' # f) = Some w"
    by (simp add: y h)
  from url_lawsD(6)[OF assms(1) o this] have "set_hash U w [] = set_hash U (normal_form U u) []" .
  then have "normal_form U w = normal_form U (normal_form U u)"
    by (rule normal_form_depends_on_hash)
  moreover have "parse U y = Some (normal_form U u)"
    unfolding y using assms(1) o by (rule url_lawsD(1))
  ultimately show ?thesis
    by (simp add: normalizeUrl_normal_form w)
qed

lemma normalizeUrl_stage1_append_fragment:
  assumes "url_laws U" and "normalizeUrl_stage1 U x = Some y"
    and "parse U (y @ CHR ''#'' # f) \<noteq> None"
  shows "normalizeUrl_stage1 U (y @ CHR ''#'' # f) = Some y"
proof -
  from assms(2) obtain u where u: "parse U x = Some u" and y: "y = href U (set_hash U u [])"
    by (auto simp: normalizeUrl_stage1_def split: option.splits)
  have o: "url_object U u" using u by (rule url_object.parsed)
  from assms(3) obtain w where
    w: "parse U (href U (set_hash U u []) @ CHR ''#'' # f) = Some w"
    by (auto simp: y)
  from url_lawsD(6)[OF assms(1) o w] have "set_hash U w [] = set_hash U u []" .
  then show ?thesis
    by (simp add: normalizeUrl_stage1_def w y)
qed

lemma normalizeUrl_None: "normalizeUrl U x = None \<longleftrightarrow> parse U x = None"
  by (simp add: normalizeUrl_normal_form)

lemma normalizeUrl_stage1_None: "normalizeUrl_stage1 U x = None \<longleftrightarrow> parse U x = None"
  by (simp add: normalizeUrl_stage1_def split: option.splits)

text \<open>
  C7 (as amended). For every URL class that satisfies the laws: \<^verbatim>\<open>normalizeUrl\<close> of the
  stage-1 crawler is idempotent; \<^verbatim>\<open>normalizeUrl\<close> of the modular crawler strips one leading
  \<^verbatim>\<open>www.\<close> label, so it is idempotent on every input whose host name does not begin with
  \<^verbatim>\<open>www.www.\<close>. The result of either has no \<^verbatim>\<open>#\<close>; a normalised URL followed by
  \<^verbatim>\<open>#\<close> and any string, if it parses, has the normal form of the normalised URL; and two
  inputs whose URLs are the same once the fragment is cleared have the same normal form.
  Both return \<^verbatim>\<open>null\<close> exactly on the strings \<^verbatim>\<open>new URL\<close> rejects.
\<close>

theorem normalizeUrl_idempotent_strips_fragment:
  assumes "url_laws U"
  shows
  "(normalizeUrl_stage1 U x = Some y \<longrightarrow>
      normalizeUrl_stage1 U y = Some y \<and> CHR ''#'' \<notin> set y \<and>
      (parse U (y @ CHR ''#'' # f) \<noteq> None \<longrightarrow> normalizeUrl_stage1 U (y @ CHR ''#'' # f) = Some y)) \<and>
   (normalizeUrl U x = Some z \<longrightarrow>
      CHR ''#'' \<notin> set z \<and>
      (parse U (z @ CHR ''#'' # f) \<noteq> None \<longrightarrow>
         normalizeUrl U (z @ CHR ''#'' # f) = normalizeUrl U z) \<and>
      (parse U x = Some u \<and> \<not> prefix ''www.www.'' (hostname U u) \<longrightarrow>
         normalizeUrl U z = Some z)) \<and>
   (parse U a = Some ua \<and> parse U b = Some ub \<and> set_hash U ua [] = set_hash U ub [] \<longrightarrow>
      normalizeUrl U a = normalizeUrl U b \<and> normalizeUrl_stage1 U a = normalizeUrl_stage1 U b) \<and>
   (normalizeUrl U x = None \<longleftrightarrow> parse U x = None) \<and>
   (normalizeUrl_stage1 U x = None \<longleftrightarrow> parse U x = None)"
proof (intro conjI impI)
  assume s: "normalizeUrl_stage1 U x = Some y"
  with assms show "normalizeUrl_stage1 U y = Some y" by (rule normalizeUrl_stage1_idem)
  from assms s show "CHR ''#'' \<notin> set y" by (rule normalizeUrl_stage1_no_hash)
  assume "parse U (y @ CHR ''#'' # f) \<noteq> None"
  with assms s show "normalizeUrl_stage1 U (y @ CHR ''#'' # f) = Some y"
    by (rule normalizeUrl_stage1_append_fragment)
next
  assume m: "normalizeUrl U x = Some z"
  with assms show "CHR ''#'' \<notin> set z" by (rule normalizeUrl_no_hash)
  {
    assume "parse U (z @ CHR ''#'' # f) \<noteq> None"
    with assms m show "normalizeUrl U (z @ CHR ''#'' # f) = normalizeUrl U z"
      by (rule normalizeUrl_append_fragment)
  }
  assume "parse U x = Some u \<and> \<not> prefix ''www.www.'' (hostname U u)"
  then show "normalizeUrl U z = Some z"
    using normalizeUrl_idem[OF assms _ _ m] by blast
next
  assume e: "parse U a = Some ua \<and> parse U b = Some ub \<and> set_hash U ua [] = set_hash U ub []"
  then show "normalizeUrl U a = normalizeUrl U b"
    using normal_form_depends_on_hash[of U ua ub] by (simp add: normalizeUrl_normal_form)
  from e show "normalizeUrl_stage1 U a = normalizeUrl_stage1 U b"
    by (simp add: normalizeUrl_stage1_def)
next
  show "normalizeUrl U x = None \<longleftrightarrow> parse U x = None" by (rule normalizeUrl_None)
  show "normalizeUrl_stage1 U x = None \<longleftrightarrow> parse U x = None"
    by (rule normalizeUrl_stage1_None)
qed

theorem normalizeUrl_idempotent_strips_fragment_witness:
  "normalizeUrl_stage1 plain_urls ''https://www.a.gov/x'' = Some ''https://www.a.gov/x'' \<and>
   normalizeUrl_stage1 plain_urls ''https://www.a.gov/x#frag'' = Some ''https://www.a.gov/x'' \<and>
   normalizeUrl plain_urls ''https://a.gov/x'' = Some ''https://a.gov/x'' \<and>
   normalizeUrl plain_urls ''https://a.gov/x#frag'' = normalizeUrl plain_urls ''https://a.gov/x'' \<and>
   CHR ''#'' \<notin> set ''https://a.gov/x'' \<and>
   normalizeUrl plain_urls ''https://www.a.gov/x?q#top'' =
     normalizeUrl plain_urls ''https://www.a.gov/x?q#end'' \<and>
   normalizeUrl_stage1 plain_urls ''a.gov/x'' = None"
proof -
  let ?u = "\<lparr>url_scheme = ''https'', url_host = ''www.a.gov'', url_path = ''/x'',
             url_query = None, url_fragment = Some ''top''\<rparr>"
  let ?a = "\<lparr>url_scheme = ''https'', url_host = ''www.a.gov'', url_path = ''/x'',
             url_query = Some ''q'', url_fragment = Some ''top''\<rparr>"
  let ?b = "\<lparr>url_scheme = ''https'', url_host = ''www.a.gov'', url_path = ''/x'',
             url_query = Some ''q'', url_fragment = Some ''end''\<rparr>"
  have p: "parse plain_urls ''https://www.a.gov/x#top'' = Some ?u"
    by code_simp
  have h: "\<not> prefix ''www.www.'' (hostname plain_urls ?u)"
    by code_simp
  have n1: "normalizeUrl_stage1 plain_urls ''https://www.a.gov/x#top'' = Some ''https://www.a.gov/x''"
    by code_simp
  have n2: "normalizeUrl plain_urls ''https://www.a.gov/x#top'' = Some ''https://a.gov/x''"
    by code_simp
  have f1: "parse plain_urls (''https://www.a.gov/x'' @ CHR ''#'' # ''frag'') \<noteq> None"
    by code_simp
  have f2: "parse plain_urls (''https://a.gov/x'' @ CHR ''#'' # ''frag'') \<noteq> None"
    by code_simp
  have pa: "parse plain_urls ''https://www.a.gov/x?q#top'' = Some ?a"
    by code_simp
  have pb: "parse plain_urls ''https://www.a.gov/x?q#end'' = Some ?b"
    by code_simp
  have ab: "set_hash plain_urls ?a [] = set_hash plain_urls ?b []"
    by code_simp
  have un: "parse plain_urls ''a.gov/x'' = None"
    by code_simp
  note t1 = normalizeUrl_idempotent_strips_fragment[OF plain_urls_laws,
      where x = "''https://www.a.gov/x#top''" and y = "''https://www.a.gov/x''" and u = ?u
        and z = "''https://a.gov/x''" and f = "''frag''"
        and a = "''https://www.a.gov/x?q#top''" and ua = ?a
        and b = "''https://www.a.gov/x?q#end''" and ub = ?b]
  note t2 = normalizeUrl_idempotent_strips_fragment[OF plain_urls_laws,
      where x = "''a.gov/x''"]
  from t1 n1 f1 have 1: "normalizeUrl_stage1 plain_urls ''https://www.a.gov/x'' = Some ''https://www.a.gov/x''"
    and 2: "normalizeUrl_stage1 plain_urls (''https://www.a.gov/x'' @ CHR ''#'' # ''frag'') =
            Some ''https://www.a.gov/x''"
    by blast+
  from t1 n2 p h f2 have 3: "normalizeUrl plain_urls ''https://a.gov/x'' = Some ''https://a.gov/x''"
    and 4: "normalizeUrl plain_urls (''https://a.gov/x'' @ CHR ''#'' # ''frag'') =
            normalizeUrl plain_urls ''https://a.gov/x''"
    and 5: "CHR ''#'' \<notin> set ''https://a.gov/x''"
    by blast+
  from t1 pa pb ab have 6: "normalizeUrl plain_urls ''https://www.a.gov/x?q#top'' =
     normalizeUrl plain_urls ''https://www.a.gov/x?q#end''"
    by blast
  from t2 un have 7: "normalizeUrl_stage1 plain_urls ''a.gov/x'' = None"
    by blast
  from 1 2 3 4 5 6 7 show ?thesis by simp
qed

text \<open>
  C7 (as stated) fails for the modular crawler: the second application strips a second
  \<^verbatim>\<open>www.\<close> label.
\<close>

theorem normalizeUrl_not_idempotent:
  "normalizeUrl plain_urls ''https://www.www.a.gov/x'' = Some ''https://www.a.gov/x'' \<and>
   normalizeUrl plain_urls ''https://www.a.gov/x'' = Some ''https://a.gov/x'' \<and>
   normalizeUrl plain_urls ''https://www.a.gov/x'' \<noteq> Some ''https://www.a.gov/x''"
  by code_simp

section \<open>Domain membership\<close>

text \<open>Whatever the URL class: a base that \<^verbatim>\<open>new URL\<close> rejects matches nothing.\<close>

lemma sameDomain_unparsable_base: "parse U base = None \<Longrightarrow> \<not> sameDomain U u base"
  by (simp add: sameDomain_def split: option.splits)

text \<open>
  C3. \<^verbatim>\<open>sameDomain\<close> of the modular crawler answers \<^verbatim>\<open>false\<close> for the subdomain of the
  claim's own example, because it parses the base \<^verbatim>\<open>agency.gov\<close> as a URL; \<^verbatim>\<open>isSameDomain\<close>
  of the stage-1 crawler answers \<^verbatim>\<open>true\<close> for a host that neither equals the base nor
  ends with a dot and the base.
\<close>

theorem sameDomain_rejects_subdomain:
  "\<not> sameDomain plain_urls ''https://sub.agency.gov/y'' ''agency.gov'' \<and>
   isSameDomain plain_urls ''https://sub.agency.gov/y'' ''agency.gov'' \<and>
   isSameDomain plain_urls ''https://notagency.gov/'' ''agency.gov'' \<and>
   \<not> suffix ''.agency.gov'' ''notagency.gov''"
  by code_simp

section \<open>Link extraction\<close>

text \<open>
  C10. \<^verbatim>\<open>extractLinks\<close> of the stage-1 crawler returns the link to \<^verbatim>\<open>notagency.gov\<close>
  for the base \<^verbatim>\<open>agency.gov\<close>, a host that neither equals the base nor ends with a dot
  and the base. \<^verbatim>\<open>extractLinks\<close> of the modular crawler returns nothing for that base, not
  even the links of the domain itself, because \<^verbatim>\<open>sameDomain\<close> parses the base as a URL;
  given the base as a URL it returns the links of the domain and its subdomains, without
  duplicates, fragments or a leading \<^verbatim>\<open>www.\<close>.
\<close>

theorem extractLinks_keeps_off_domain:
  "extractLinks_stage1 plain_urls
     (page_with (Inr [''https://agency.gov/a#top'', ''https://notagency.gov/'',
                      ''https://www.agency.gov/a'', ''https://sub.agency.gov/b?q=1#f'',
                      ''https://agency.gov/a'', ''https://other.com/'', ''/relative''])
        (Inr []) [])
     ''agency.gov'' =
   Inr [''https://agency.gov/a'', ''https://notagency.gov/'', ''https://www.agency.gov/a'',
        ''https://sub.agency.gov/b?q=1''] \<and>
   ''notagency.gov'' \<noteq> ''agency.gov'' \<and> \<not> suffix ''.agency.gov'' ''notagency.gov'' \<and>
   extractLinks plain_urls
     (page_with (Inr [''https://agency.gov/a#top'', ''https://notagency.gov/'',
                      ''https://www.agency.gov/a'', ''https://sub.agency.gov/b?q=1#f'',
                      ''https://agency.gov/a'', ''https://other.com/'', ''/relative''])
        (Inr []) [])
     ''agency.gov'' = Inr [] \<and>
   extractLinks plain_urls
     (page_with (Inr [''https://agency.gov/a#top'', ''https://notagency.gov/'',
                      ''https://www.agency.gov/a'', ''https://sub.agency.gov/b?q=1#f'',
                      ''https://agency.gov/a'', ''https://other.com/'', ''/relative''])
        (Inr []) [])
     ''https://agency.gov'' =
   Inr [''https://agency.gov/a'', ''https://sub.agency.gov/b?q=1'']"
  by code_simp

section \<open>The frontier\<close>

lemma enqueue_cases:
  "enqueue U m vis q l = q \<or> (\<exists>c. enqueue U m vis q l = q @ [c] \<and> c \<notin> set vis \<and> c \<notin> set q)"
  by (simp add: enqueue_def split: option.split)

lemma enqueue_stage1_cases:
  "enqueue_stage1 U m vis q l = q \<or>
   (\<exists>c. enqueue_stage1 U m vis q l = q @ [c] \<and> c \<notin> set vis \<and> c \<notin> set q)"
  by (simp add: enqueue_stage1_def split: option.split)

lemma foldl_enqueue_inv:
  assumes f: "\<And>q l. f q l = q \<or> (\<exists>c. f q l = q @ [c] \<and> c \<notin> set vis \<and> c \<notin> set q)"
    and "distinct q" and "set q \<inter> set vis = {}"
  shows "distinct (foldl f q ls) \<and> set (foldl f q ls) \<inter> set vis = {} \<and> prefix q (foldl f q ls)"
  using assms(2,3)
proof (induction ls arbitrary: q)
  case Nil
  then show ?case by simp
next
  case (Cons l ls)
  from f[of q l] have "distinct (f q l) \<and> set (f q l) \<inter> set vis = {} \<and> prefix q (f q l)"
    using Cons.prems by auto
  with Cons.IH[of "f q l"] show ?case
    by (auto intro: prefix_order.trans)
qed

text \<open>An iteration that the loop condition lets in stays within the ceiling.\<close>

lemma ceiling_step:
  assumes "js_less (real n) m"
  shows "within_ceiling (Suc n) m"
proof (cases m)
  case (Num r)
  with assms have "real_of_int (int n) < r" by (simp add: js_less_def)
  then have "int n < \<lceil>r\<rceil>" by (simp only: less_ceiling_iff)
  then show ?thesis by (simp add: within_ceiling_def Num)
next
  case PosInf
  then show ?thesis by (simp add: within_ceiling_def)
next
  case NegInf
  with assms show ?thesis by (simp add: js_less_def)
next
  case NaN
  with assms show ?thesis by (simp add: js_less_def)
qed

lemma crawl_step_shape:
  assumes "queue s = u # rest" and "u \<notin> set (visited s)"
  shows "visited (crawl_step U e d m s) = visited s @ [u]"
    and "queue (crawl_step U e d m s) = rest \<or>
         (\<exists>pg ls. goto e u = Inr pg \<and> extractLinks U pg d = Inr ls \<and>
            queue (crawl_step U e d m s) = foldl (enqueue U m (visited s @ [u])) rest ls)"
    and "results (crawl_step U e d m s) = results s \<or>
         (\<exists>msg. results (crawl_step U e d m s) = results s @
            [\<lparr>url = u, timestamp = now e (length (results s)), violations = Some [],
              error = Some msg\<rparr>])"
proof -
  show "visited (crawl_step U e d m s) = visited s @ [u]"
    using assms by (simp add: crawl_step_def set_add_def Let_def split: sum.split)
  show "queue (crawl_step U e d m s) = rest \<or>
         (\<exists>pg ls. goto e u = Inr pg \<and> extractLinks U pg d = Inr ls \<and>
            queue (crawl_step U e d m s) = foldl (enqueue U m (visited s @ [u])) rest ls)"
    using assms by (simp add: crawl_step_def set_add_def Let_def split: sum.split)
  show "results (crawl_step U e d m s) = results s \<or>
         (\<exists>msg. results (crawl_step U e d m s) = results s @
            [\<lparr>url = u, timestamp = now e (length (results s)), violations = Some [],
              error = Some msg\<rparr>])"
    using assms by (simp add: crawl_step_def set_add_def Let_def split: sum.split)
qed

lemma frontier_inv_head:
  assumes "frontier_inv m s" and "queue s = u # rest"
  shows "u \<notin> set (visited s)" and "u \<notin> set rest" and "distinct rest"
    and "set rest \<inter> set (visited s @ [u]) = {}" and "distinct (visited s @ [u])"
  using assms by (auto simp: frontier_inv_def)

lemma crawl_step_frontier:
  assumes "frontier_inv m s" and "queue s \<noteq> []" and "js_less (real (length (visited s))) m"
  shows "frontier_inv m (crawl_step U e d m s)"
proof -
  from assms(2) obtain u rest where q: "queue s = u # rest" by (cases "queue s") auto
  note h = frontier_inv_head[OF assms(1) q]
  note sh = crawl_step_shape[OF q h(1), of U e d m]
  have "distinct (queue (crawl_step U e d m s)) \<and>
        set (queue (crawl_step U e d m s)) \<inter> set (visited s @ [u]) = {}"
  proof (cases "queue (crawl_step U e d m s) = rest")
    case True
    with h(3,4) show ?thesis by simp
  next
    case False
    with sh(2) obtain ls where
      "queue (crawl_step U e d m s) = foldl (enqueue U m (visited s @ [u])) rest ls" by blast
    then show ?thesis
      using foldl_enqueue_inv[where f = "enqueue U m (visited s @ [u])", OF enqueue_cases h(3,4),
          where ls = ls] by simp
  qed
  moreover have "within_ceiling (length (visited s @ [u])) m"
    using ceiling_step[OF assms(3)] by simp
  ultimately show ?thesis
    using h(5) by (simp add: frontier_inv_def sh(1))
qed

lemma crawl_step_results:
  assumes "frontier_inv m s" and "results_inv s" and "queue s \<noteq> []"
  shows "results_inv (crawl_step U e d m s)"
proof -
  from assms(3) obtain u rest where q: "queue s = u # rest" by (cases "queue s") auto
  note h = frontier_inv_head[OF assms(1) q]
  note sh = crawl_step_shape[OF q h(1), of U e d m]
  from assms(2) have d: "distinct (map url (results s))"
    and v: "set (map url (results s)) \<subseteq> set (visited s)"
    by (simp_all add: results_inv_def)
  from v h(1) have n: "u \<notin> set (map url (results s))" by blast
  from sh(3) show ?thesis
  proof
    assume "results (crawl_step U e d m s) = results s"
    with d v show ?thesis by (auto simp: results_inv_def sh(1))
  next
    assume "\<exists>msg. results (crawl_step U e d m s) = results s @
            [\<lparr>url = u, timestamp = now e (length (results s)), violations = Some [],
              error = Some msg\<rparr>]"
    then obtain msg where "results (crawl_step U e d m s) = results s @
            [\<lparr>url = u, timestamp = now e (length (results s)), violations = Some [],
              error = Some msg\<rparr>]" ..
    with d v n show ?thesis by (auto simp: results_inv_def sh(1))
  qed
qed

lemma reachable_inv:
  assumes "reachable (crawl_step U e d m) m seed s"
  shows "frontier_inv m s \<and> results_inv s"
  using assms
proof (induction rule: reachable.induct)
  case initial
  show ?case by (cases m) (simp_all add: frontier_inv_def results_inv_def within_ceiling_def)
next
  case (iteration s)
  then show ?case
    by (simp add: crawl_step_frontier crawl_step_results)
qed



lemma crawl_step_stage1_shape:
  assumes "queue s = u # rest" and "u \<notin> set (visited s)"
  shows "visited (crawl_step_stage1 U e d m s) = visited s @ [u]"
    and "queue (crawl_step_stage1 U e d m s) = rest \<or>
         (\<exists>ls. queue (crawl_step_stage1 U e d m s) =
                  foldl (enqueue_stage1 U m (visited s @ [u])) rest ls)"
    and "(\<exists>r. url r = u \<and> results (crawl_step_stage1 U e d m s) = results s @ [r]) \<or>
         (\<exists>r r' pg msg. url r = u \<and> url r' = u \<and> goto e u = Inr pg \<and> anchors pg = Inl msg \<and>
            results (crawl_step_stage1 U e d m s) = results s @ [r, r'])"
proof -
  show "visited (crawl_step_stage1 U e d m s) = visited s @ [u]"
    using assms by (simp add: crawl_step_stage1_def set_add_def Let_def split: sum.split)
  show "queue (crawl_step_stage1 U e d m s) = rest \<or>
         (\<exists>ls. queue (crawl_step_stage1 U e d m s) =
                  foldl (enqueue_stage1 U m (visited s @ [u])) rest ls)"
    using assms by (auto simp: crawl_step_stage1_def set_add_def Let_def split: sum.split)
  show "(\<exists>r. url r = u \<and> results (crawl_step_stage1 U e d m s) = results s @ [r]) \<or>
         (\<exists>r r' pg msg. url r = u \<and> url r' = u \<and> goto e u = Inr pg \<and> anchors pg = Inl msg \<and>
            results (crawl_step_stage1 U e d m s) = results s @ [r, r'])"
    using assms
    by (auto simp: crawl_step_stage1_def set_add_def Let_def extractLinks_stage1_def
        split: sum.split)
qed

lemma crawl_step_stage1_frontier:
  assumes "frontier_inv m s" and "queue s \<noteq> []" and "js_less (real (length (visited s))) m"
  shows "frontier_inv m (crawl_step_stage1 U e d m s)"
proof -
  from assms(2) obtain u rest where q: "queue s = u # rest" by (cases "queue s") auto
  note h = frontier_inv_head[OF assms(1) q]
  note sh = crawl_step_stage1_shape[OF q h(1), of U e d m]
  have "distinct (queue (crawl_step_stage1 U e d m s)) \<and>
        set (queue (crawl_step_stage1 U e d m s)) \<inter> set (visited s @ [u]) = {}"
  proof (cases "queue (crawl_step_stage1 U e d m s) = rest")
    case True
    with h(3,4) show ?thesis by simp
  next
    case False
    with sh(2) obtain ls where
      "queue (crawl_step_stage1 U e d m s) = foldl (enqueue_stage1 U m (visited s @ [u])) rest ls"
      by blast
    then show ?thesis
      using foldl_enqueue_inv[where f = "enqueue_stage1 U m (visited s @ [u])",
          OF enqueue_stage1_cases h(3,4), where ls = ls] by simp
  qed
  moreover have "within_ceiling (length (visited s @ [u])) m"
    using ceiling_step[OF assms(3)] by simp
  ultimately show ?thesis
    using h(5) by (simp add: frontier_inv_def sh(1))
qed

lemma crawl_step_stage1_results:
  assumes "frontier_inv m s" and "results_inv s" and "queue s \<noteq> []" and "links_readable e"
  shows "results_inv (crawl_step_stage1 U e d m s)"
proof -
  from assms(3) obtain u rest where q: "queue s = u # rest" by (cases "queue s") auto
  note h = frontier_inv_head[OF assms(1) q]
  note sh = crawl_step_stage1_shape[OF q h(1), of U e d m]
  from assms(2) have d: "distinct (map url (results s))"
    and v: "set (map url (results s)) \<subseteq> set (visited s)"
    by (simp_all add: results_inv_def)
  from v h(1) have n: "u \<notin> set (map url (results s))" by blast
  from sh(3) assms(4) obtain r where "url r = u"
    and "results (crawl_step_stage1 U e d m s) = results s @ [r]"
    unfolding links_readable_def by blast
  with d v n show ?thesis by (auto simp: results_inv_def sh(1))
qed

lemma reachable_stage1_inv:
  assumes "reachable (crawl_step_stage1 U e d m) m seed s"
  shows "frontier_inv m s \<and> (links_readable e \<longrightarrow> results_inv s)"
  using assms
proof (induction rule: reachable.induct)
  case initial
  show ?case by (cases m) (simp_all add: frontier_inv_def results_inv_def within_ceiling_def)
next
  case (iteration s)
  then show ?case
    by (simp add: crawl_step_stage1_frontier crawl_step_stage1_results)
qed






lemma crawl_loop_unfold:
  "queue s \<noteq> [] \<Longrightarrow> js_less (real (length (visited s))) m \<Longrightarrow>
   crawl_loop U e d m s = crawl_loop U e d m (crawl_step U e d m s)"
  by (subst crawl_loop.simps) simp

lemma crawl_loop_stage1_unfold:
  "queue s \<noteq> [] \<Longrightarrow> js_less (real (length (visited s))) m \<Longrightarrow>
   crawl_loop_stage1 U e d m s = crawl_loop_stage1 U e d m (crawl_step_stage1 U e d m s)"
  by (subst crawl_loop_stage1.simps) simp


section \<open>The loop ends\<close>







text \<open>
  The queue is first in, first out: an iteration moves the head of the queue to the end of
  the visited list and appends what it discovers to the end of the queue, so the URLs are
  visited in the order in which they were queued.
\<close>

lemma crawl_step_fifo:
  assumes "frontier_inv m s" and "queue s \<noteq> []"
  shows "prefix (visited s @ queue s)
           (visited (crawl_step U e d m s) @ queue (crawl_step U e d m s))"
proof -
  from assms(2) obtain u rest where q: "queue s = u # rest" by (cases "queue s") auto
  note h = frontier_inv_head[OF assms(1) q]
  note sh = crawl_step_shape[OF q h(1), of U e d m]
  have "prefix rest (queue (crawl_step U e d m s))"
  proof (cases "queue (crawl_step U e d m s) = rest")
    case True
    then show ?thesis by simp
  next
    case False
    with sh(2) obtain ls where
      "queue (crawl_step U e d m s) = foldl (enqueue U m (visited s @ [u])) rest ls" by blast
    then show ?thesis
      using foldl_enqueue_inv[where f = "enqueue U m (visited s @ [u])", OF enqueue_cases h(3,4),
          where ls = ls] by simp
  qed
  then show ?thesis
    by (simp add: sh(1) q)
qed

lemma crawl_step_stage1_fifo:
  assumes "frontier_inv m s" and "queue s \<noteq> []"
  shows "prefix (visited s @ queue s)
           (visited (crawl_step_stage1 U e d m s) @ queue (crawl_step_stage1 U e d m s))"
proof -
  from assms(2) obtain u rest where q: "queue s = u # rest" by (cases "queue s") auto
  note h = frontier_inv_head[OF assms(1) q]
  note sh = crawl_step_stage1_shape[OF q h(1), of U e d m]
  have "prefix rest (queue (crawl_step_stage1 U e d m s))"
  proof (cases "queue (crawl_step_stage1 U e d m s) = rest")
    case True
    then show ?thesis by simp
  next
    case False
    with sh(2) obtain ls where
      "queue (crawl_step_stage1 U e d m s) = foldl (enqueue_stage1 U m (visited s @ [u])) rest ls"
      by blast
    then show ?thesis
      using foldl_enqueue_inv[where f = "enqueue_stage1 U m (visited s @ [u])",
          OF enqueue_stage1_cases h(3,4), where ls = ls] by simp
  qed
  then show ?thesis
    by (simp add: sh(1) q)
qed




section \<open>Failures inside an iteration\<close>

lemma crawl_step_goto_fails:
  assumes "queue s = u # rest" and "u \<notin> set (visited s)" and "goto e u = Inl msg"
  shows "crawl_step U e d m s =
         s\<lparr>queue := rest, visited := visited s @ [u],
           results := results s @
             [\<lparr>url = u, timestamp = now e (length (results s)), violations = Some [],
               error = Some msg\<rparr>]\<rparr>"
  using assms by (simp add: crawl_step_def set_add_def)

lemma crawl_step_stage1_goto_fails:
  assumes "queue s = u # rest" and "u \<notin> set (visited s)" and "goto e u = Inl msg"
  shows "crawl_step_stage1 U e d m s =
         s\<lparr>queue := rest, visited := visited s @ [u],
           results := results s @
             [\<lparr>url = u, timestamp = now e (length (results s)), violations = None,
               error = Some msg\<rparr>]\<rparr>"
  using assms by (simp add: crawl_step_stage1_def set_add_def)

lemma crawl_step_stage1_axe_fails:
  assumes "queue s = u # rest" and "u \<notin> set (visited s)" and "goto e u = Inr pg"
    and "runAxe pg = Inl msg"
  shows "crawl_step_stage1 U e d m s =
         s\<lparr>queue := rest, visited := visited s @ [u],
           results := results s @
             [\<lparr>url = u, timestamp = now e (length (results s)), violations = None,
               error = Some msg\<rparr>]\<rparr>"
  using assms by (simp add: crawl_step_stage1_def set_add_def)

text \<open>
  C6 (as amended). When the navigation to a dequeued URL fails, the iteration of either
  crawler moves the URL from the queue to the visited set and appends one record with
  \<^verbatim>\<open>error\<close> set to the message: with \<^verbatim>\<open>violations: []\<close> in the modular crawler, with no
  \<^verbatim>\<open>violations\<close> field in the stage-1 crawler. The loop goes on from that state, in which
  the URL is visited and not queued, and the frontier invariant keeps it out of the queue.
\<close>

theorem navigation_failure_recorded:
  "(reachable (crawl_step U e d m) m seed s \<and> queue s = u # rest \<and>
    js_less (real (length (visited s))) m \<and> goto e u = Inl msg \<longrightarrow>
      crawl_step U e d m s =
        s\<lparr>queue := rest, visited := visited s @ [u],
          results := results s @
            [\<lparr>url = u, timestamp = now e (length (results s)), violations = Some [],
              error = Some msg\<rparr>]\<rparr> \<and>
      crawl_loop U e d m s = crawl_loop U e d m (crawl_step U e d m s) \<and>
      u \<notin> set (visited s) \<and> u \<notin> set rest \<and> frontier_inv m (crawl_step U e d m s)) \<and>
   (reachable (crawl_step_stage1 U e d m) m seed s \<and> queue s = u # rest \<and>
    js_less (real (length (visited s))) m \<and> goto e u = Inl msg \<longrightarrow>
      crawl_step_stage1 U e d m s =
        s\<lparr>queue := rest, visited := visited s @ [u],
          results := results s @
            [\<lparr>url = u, timestamp = now e (length (results s)), violations = None,
              error = Some msg\<rparr>]\<rparr> \<and>
      crawl_loop_stage1 U e d m s = crawl_loop_stage1 U e d m (crawl_step_stage1 U e d m s) \<and>
      u \<notin> set (visited s) \<and> u \<notin> set rest \<and> frontier_inv m (crawl_step_stage1 U e d m s))"
proof (intro conjI impI)
  assume a: "reachable (crawl_step U e d m) m seed s \<and> queue s = u # rest \<and>
    js_less (real (length (visited s))) m \<and> goto e u = Inl msg"
  then have i: "frontier_inv m s" and q: "queue s = u # rest" using reachable_inv by blast+
  note h = frontier_inv_head[OF i q]
  from h show "u \<notin> set (visited s)" and "u \<notin> set rest" by simp_all
  from a h(1) show "crawl_step U e d m s =
        s\<lparr>queue := rest, visited := visited s @ [u],
          results := results s @
            [\<lparr>url = u, timestamp = now e (length (results s)), violations = Some [],
              error = Some msg\<rparr>]\<rparr>"
    by (simp add: crawl_step_goto_fails)
  from a show "crawl_loop U e d m s = crawl_loop U e d m (crawl_step U e d m s)"
    by (simp add: crawl_loop_unfold)
  from a i show "frontier_inv m (crawl_step U e d m s)"
    by (simp add: crawl_step_frontier)
next
  assume a: "reachable (crawl_step_stage1 U e d m) m seed s \<and> queue s = u # rest \<and>
    js_less (real (length (visited s))) m \<and> goto e u = Inl msg"
  then have i: "frontier_inv m s" and q: "queue s = u # rest"
    using reachable_stage1_inv by blast+
  note h = frontier_inv_head[OF i q]
  from h show "u \<notin> set (visited s)" and "u \<notin> set rest" by simp_all
  from a h(1) show "crawl_step_stage1 U e d m s =
        s\<lparr>queue := rest, visited := visited s @ [u],
          results := results s @
            [\<lparr>url = u, timestamp = now e (length (results s)), violations = None,
              error = Some msg\<rparr>]\<rparr>"
    by (simp add: crawl_step_stage1_goto_fails)
  from a show "crawl_loop_stage1 U e d m s =
               crawl_loop_stage1 U e d m (crawl_step_stage1 U e d m s)"
    by (simp add: crawl_loop_stage1_unfold)
  from a i show "frontier_inv m (crawl_step_stage1 U e d m s)"
    by (simp add: crawl_step_stage1_frontier)
qed

theorem navigation_failure_recorded_witness:
  "crawl_step plain_urls example_env ''down.gov'' (Num 5)
     \<lparr>queue = [''https://down.gov/''], visited = [], results = []\<rparr> =
   \<lparr>queue = [], visited = [''https://down.gov/''],
    results = [\<lparr>url = ''https://down.gov/'', timestamp = show_nat 0, violations = Some [],
                error = Some ''net::ERR_TIMED_OUT''\<rparr>]\<rparr> \<and>
   crawl_step_stage1 plain_urls example_env ''down.gov'' (Num 5)
     \<lparr>queue = [''https://down.gov/''], visited = [], results = []\<rparr> =
   \<lparr>queue = [], visited = [''https://down.gov/''],
    results = [\<lparr>url = ''https://down.gov/'', timestamp = show_nat 0, violations = None,
                error = Some ''net::ERR_TIMED_OUT''\<rparr>]\<rparr>"
proof -
  let ?i = "\<lparr>queue = [''https://down.gov/''], visited = [], results = []\<rparr>"
  have g: "goto example_env ''https://down.gov/'' = Inl ''net::ERR_TIMED_OUT''"
    by (simp add: example_env_def example_site_def)
  have q: "queue ?i = ''https://down.gov/'' # []"
    and l: "js_less (real (length (visited ?i))) (Num 5)"
    by (simp_all add: js_less_def)
  note t = navigation_failure_recorded[where U = plain_urls and e = example_env
      and d = "''down.gov''" and m = "Num 5"
      and seed = "''https://down.gov/''" and s = ?i and u = "''https://down.gov/''"
      and rest = "[]" and msg = "''net::ERR_TIMED_OUT''"]
  from t g q l
    reachable.initial[of "crawl_step plain_urls example_env ''down.gov'' (Num 5)" "Num 5"
      "''https://down.gov/''"]
  have 1: "crawl_step plain_urls example_env ''down.gov'' (Num 5) ?i =
        ?i\<lparr>queue := [], visited := visited ?i @ [''https://down.gov/''],
          results := results ?i @
            [\<lparr>url = ''https://down.gov/'', timestamp = now example_env (length (results ?i)),
              violations = Some [], error = Some ''net::ERR_TIMED_OUT''\<rparr>]\<rparr>"
    by blast
  from t g q l
    reachable.initial[of "crawl_step_stage1 plain_urls example_env ''down.gov'' (Num 5)" "Num 5"
      "''https://down.gov/''"]
  have 2: "crawl_step_stage1 plain_urls example_env ''down.gov'' (Num 5) ?i =
        ?i\<lparr>queue := [], visited := visited ?i @ [''https://down.gov/''],
          results := results ?i @
            [\<lparr>url = ''https://down.gov/'', timestamp = now example_env (length (results ?i)),
              violations = None, error = Some ''net::ERR_TIMED_OUT''\<rparr>]\<rparr>"
    by blast
  from 1 2 show ?thesis
    by (simp add: example_env_def)
qed

text \<open>
  C6 (as stated) fails for the stage-1 crawler: the record of a failed navigation has no
  \<^verbatim>\<open>violations\<close> field.
\<close>

theorem navigation_failure_without_violations:
  "crawl_stage1 plain_urls example_env ''https://down.gov/'' None (Num 5) =
     Some (Inr [\<lparr>url = ''https://down.gov/'', timestamp = ''0'', violations = None,
                 error = Some ''net::ERR_TIMED_OUT''\<rparr>]) \<and>
   (None :: violation list option) \<noteq> Some []"
  by code_simp

text \<open>
  C2 (as amended). No rule is run in isolation. In the stage-1 crawler, the one that runs
  a rule, a rejection of the axe run is caught by the \<^verbatim>\<open>catch\<close> around the whole page:
  the page gets one record with \<^verbatim>\<open>error\<close> set and no violations, its links are not
  extracted (the queue only loses its head), and the loop goes on from that state.
\<close>

theorem rule_failure_fails_the_page:
  "(reachable (crawl_step_stage1 U e d m) m seed s \<and> queue s = u # rest \<and>
    js_less (real (length (visited s))) m \<and> goto e u = Inr pg \<and> runAxe pg = Inl msg \<longrightarrow>
      crawl_step_stage1 U e d m s =
        s\<lparr>queue := rest, visited := visited s @ [u],
          results := results s @
            [\<lparr>url = u, timestamp = now e (length (results s)), violations = None,
              error = Some msg\<rparr>]\<rparr> \<and>
      crawl_loop_stage1 U e d m s = crawl_loop_stage1 U e d m (crawl_step_stage1 U e d m s) \<and>
      frontier_inv m (crawl_step_stage1 U e d m s))"
proof (intro conjI impI)
  assume a: "reachable (crawl_step_stage1 U e d m) m seed s \<and> queue s = u # rest \<and>
    js_less (real (length (visited s))) m \<and> goto e u = Inr pg \<and> runAxe pg = Inl msg"
  then have i: "frontier_inv m s" and q: "queue s = u # rest"
    using reachable_stage1_inv by blast+
  note h = frontier_inv_head[OF i q]
  from a h(1) show "crawl_step_stage1 U e d m s =
        s\<lparr>queue := rest, visited := visited s @ [u],
          results := results s @
            [\<lparr>url = u, timestamp = now e (length (results s)), violations = None,
              error = Some msg\<rparr>]\<rparr>"
    using crawl_step_stage1_axe_fails by blast
  from a show "crawl_loop_stage1 U e d m s =
               crawl_loop_stage1 U e d m (crawl_step_stage1 U e d m s)"
    by (simp add: crawl_loop_stage1_unfold)
  from a i show "frontier_inv m (crawl_step_stage1 U e d m s)"
    by (simp add: crawl_step_stage1_frontier)
qed

theorem rule_failure_fails_the_page_witness:
  "crawl_step_stage1 plain_urls axe_rejects_env ''a.gov'' (Num 4)
     \<lparr>queue = [''https://a.gov/''], visited = [], results = []\<rparr> =
   \<lparr>queue = [], visited = [''https://a.gov/''],
    results = [\<lparr>url = ''https://a.gov/'', timestamp = show_nat 0, violations = None,
                error = Some ''axe is not defined''\<rparr>]\<rparr>"
proof -
  let ?i = "\<lparr>queue = [''https://a.gov/''], visited = [], results = []\<rparr>"
  let ?pg = "page_with (Inr [''https://a.gov/A'']) (Inl ''axe is not defined'') []"
  have g: "goto axe_rejects_env ''https://a.gov/'' = Inr ?pg"
    by (simp add: axe_rejects_env_def)
  have x: "runAxe ?pg = Inl ''axe is not defined''"
    by (simp add: runAxe_def page_with_def)
  have q: "queue ?i = ''https://a.gov/'' # []"
    and l: "js_less (real (length (visited ?i))) (Num 4)"
    by (simp_all add: js_less_def)
  note t = rule_failure_fails_the_page[where U = plain_urls and e = axe_rejects_env
      and d = "''a.gov''" and m = "Num 4"
      and seed = "''https://a.gov/''" and s = ?i and u = "''https://a.gov/''"
      and rest = "[]" and pg = ?pg and msg = "''axe is not defined''"]
  from t g x q l
    reachable.initial[of "crawl_step_stage1 plain_urls axe_rejects_env ''a.gov'' (Num 4)" "Num 4"
      "''https://a.gov/''"]
  have "crawl_step_stage1 plain_urls axe_rejects_env ''a.gov'' (Num 4) ?i =
        ?i\<lparr>queue := [], visited := visited ?i @ [''https://a.gov/''],
          results := results ?i @
            [\<lparr>url = ''https://a.gov/'', timestamp = now axe_rejects_env (length (results ?i)),
              violations = None, error = Some ''axe is not defined''\<rparr>]\<rparr>"
    by blast
  then show ?thesis
    by (simp add: axe_rejects_env_def)
qed

text \<open>
  C2 (as stated) fails: the seed's axe run rejects, the record of the seed carries the
  error and no violation list, and the page A the seed links to is never visited.
\<close>

theorem rule_failure_not_isolated:
  "crawl_final_stage1 plain_urls axe_rejects_env ''https://a.gov/'' None (Num 4) =
     Some (Inr \<lparr>queue = [], visited = [''https://a.gov/''],
                results = [\<lparr>url = ''https://a.gov/'', timestamp = ''0'', violations = None,
                            error = Some ''axe is not defined''\<rparr>]\<rparr>)"
  by code_simp

text \<open>
  C1. The modular crawler visits pages that load (the seed alone, and three pages when the
  domain is given as a URL) and writes no record, although the axe rule of the tier reports
  a violation on the seed; and the stage-1 crawler writes two records for a page whose link
  extraction rejects.
\<close>

theorem scanned_pages_not_recorded:
  "crawl_final plain_urls example_env ''https://a.gov/'' None (Num 1) premium_tier =
     Some (Inr \<lparr>queue = [], visited = [''https://a.gov/''], results = []\<rparr>) \<and>
   crawl plain_urls example_env ''https://a.gov/'' None (Num 1) premium_tier = Some (Inr []) \<and>
   crawl_final plain_urls example_env ''https://a.gov/'' (Some ''https://a.gov'') (Num 3)
     premium_tier =
     Some (Inr \<lparr>queue = [],
                visited = [''https://a.gov/'', ''https://a.gov/A'', ''https://a.gov/B''],
                results = []\<rparr>) \<and>
   axeRule (page_with (Inr []) (Inr [missing_alt]) []) = Inr [missing_alt] \<and>
   map_option (map_sum id (map url))
     (crawl_stage1 plain_urls links_reject_env ''https://a.gov/'' None (Num 4)) =
     Some (Inr [''https://a.gov/'', ''https://a.gov/''])"
  by code_simp

text \<open>
  C5. With the default domain (the host of the seed) the modular crawler visits the seed
  only, although the seed links to A and B: \<^verbatim>\<open>sameDomain\<close> rejects every link (see C3).
  The stage-1 crawler visits seed, A, B, and C when the ceiling allows.
\<close>

theorem default_domain_stops_at_seed:
  "map_option (map_sum id visited)
     (crawl_final plain_urls example_env ''https://a.gov/'' None (Num 3) premium_tier) =
     Some (Inr [''https://a.gov/'']) \<and>
   map_option (map_sum id visited)
     (crawl_final_stage1 plain_urls example_env ''https://a.gov/'' None (Num 3)) =
     Some (Inr [''https://a.gov/'', ''https://a.gov/A'', ''https://a.gov/B'']) \<and>
   map_option (map_sum id visited)
     (crawl_final_stage1 plain_urls example_env ''https://a.gov/'' None (Num 4)) =
     Some (Inr [''https://a.gov/'', ''https://a.gov/A'', ''https://a.gov/B'', ''https://a.gov/C''])"
  by code_simp

section \<open>The rules' results\<close>

text \<open>
  On a page whose matched elements are all HTML elements the target-size rule returns one
  violation for each matched element that is narrower or lower than 24 pixels, is not
  displayed inline, is visible and is not a focusable element marked \<^verbatim>\<open>visually-hidden\<close>,
  in document order. On a page with a matched SVG element it rejects.
\<close>

lemma target_size_loop_html:
  assumes "\<forall>el\<in>set els. \<not> svg el"
  shows "target_size_loop els acc =
         Some (acc @ map target_size_node
                       (filter (\<lambda>el. too_small el (the (className el))) els))"
  using assms
proof (induction els arbitrary: acc)
  case Nil
  show ?case by simp
next
  case (Cons el els)
  then have c: "className el = Some (the (className el))"
    by (simp add: className_def)
  from Cons.prems have "\<forall>el\<in>set els. \<not> svg el" by simp
  note IH = Cons.IH[OF this]
  show ?case
    by (subst target_size_loop.simps, subst c) (simp add: IH)
qed

lemma target_size_loop_svg:
  assumes "\<exists>el\<in>set els. svg el"
  shows "target_size_loop els acc = None"
  using assms
proof (induction els arbitrary: acc)
  case Nil
  then show ?case by simp
next
  case (Cons el els)
  show ?case
  proof (cases "svg el")
    case True
    then show ?thesis by (simp add: className_def)
  next
    case False
    with Cons.prems have "\<exists>el\<in>set els. svg el" by simp
    from Cons.IH[OF this] False show ?thesis by (simp add: className_def)
  qed
qed

lemma target_size_html_page:
  assumes "\<forall>el\<in>set (elements pg). interactive el \<longrightarrow> \<not> svg el"
  shows "rule_2_5_8_targetSizeMin pg =
         Inr (map (\<lambda>el. \<lparr>rule_id = ''2.5.8'', description = Some ''Target Size (Minimum)'',
                           impact = Some ''moderate'', nodes = [target_size_node el]\<rparr>)
                (filter (\<lambda>el. interactive el \<and> too_small el (the (className el)))
                   (elements pg)))"
proof -
  from assms have "\<forall>el\<in>set (filter interactive (elements pg)). \<not> svg el" by simp
  from target_size_loop_html[OF this, of "[]"] show ?thesis
    by (simp add: rule_2_5_8_targetSizeMin_def comp_def conj_commute)
qed

lemma target_size_svg_page:
  assumes "\<exists>el\<in>set (elements pg). interactive el \<and> svg el"
  shows "rule_2_5_8_targetSizeMin pg = Inl (type_error pg)"
proof -
  from assms have "\<exists>el\<in>set (filter interactive (elements pg)). svg el" by auto
  from target_size_loop_svg[OF this, of "[]"] show ?thesis
    by (simp add: rule_2_5_8_targetSizeMin_def)
qed

text \<open>
  C8. On the page of HTML controls the rule flags the block anchor of 16 by 16 pixels and
  not the inline one, and with it the narrow button, the submit input that is not high
  enough and the unfocusable \<^verbatim>\<open>visually-hidden\<close> element with a click handler, and
  nothing else. On the same page with a link inside an \<^verbatim>\<open>svg\<close> element, which
  \<^verbatim>\<open>a[href]\<close> matches, the rule throws on \<^verbatim>\<open>el.className.includes\<close> and rejects: the
  block anchor is not flagged, nothing is.
\<close>

theorem target_size_rule_throws_on_svg:
  "rule_2_5_8_targetSizeMin (page_with (Inr []) (Inr []) controls) =
   Inr [\<lparr>rule_id = ''2.5.8'', description = Some ''Target Size (Minimum)'',
         impact = Some ''moderate'',
         nodes = [\<lparr>html = ''<a href=/next id=next>next</a>'', target = [''a#next''],
                   failureSummary =
                     Some ''Pointer target is only 16x16px. Must be at least 24x24px.''\<rparr>]\<rparr>,
        \<lparr>rule_id = ''2.5.8'', description = Some ''Target Size (Minimum)'',
         impact = Some ''moderate'',
         nodes = [\<lparr>html = ''<button>'', target = [''button#go''],
                   failureSummary =
                     Some ''Pointer target is only 20x30px. Must be at least 24x24px.''\<rparr>]\<rparr>,
        \<lparr>rule_id = ''2.5.8'', description = Some ''Target Size (Minimum)'',
         impact = Some ''moderate'',
         nodes = [\<lparr>html = ''<input>'', target = [''input''],
                   failureSummary =
                     Some ''Pointer target is only 24x23px. Must be at least 24x24px.''\<rparr>]\<rparr>,
        \<lparr>rule_id = ''2.5.8'', description = Some ''Target Size (Minimum)'',
         impact = Some ''moderate'',
         nodes = [\<lparr>html = ''<div>'', target = [''div''],
                   failureSummary =
                     Some ''Pointer target is only 1x1px. Must be at least 24x24px.''\<rparr>]\<rparr>] \<and>
   interactive svg_link \<and> className svg_link = None \<and>
   rule_2_5_8_targetSizeMin (page_with (Inr []) (Inr []) (controls @ [svg_link])) =
   Inl ''Evaluation failed: TypeError: el.className.includes is not a function''"
  by code_simp

text \<open>
  C9. The media rule returns its offending element with an empty \<^verbatim>\<open>target\<close>: there is no
  selector to resolve.
\<close>

theorem audio_rule_empty_target:
  "rule_1_4_2_audio
     (page_with (Inr []) (Inr [])
        [\<lparr>svg = False, tagName = ''AUDIO'',
          attributes = [(''src'', ''intro.mp3''), (''autoplay'', [])],
          tabIndex = - 1, outerHTML = ''<audio src=intro.mp3 autoplay></audio>'',
          rect_width = 0, rect_height = 0, display = ''none'',
          visibility = ''visible''\<rparr>]) =
   Inr [\<lparr>rule_id = ''1.4.2'',
         description = Some ''Autoplay media >3 s without independent pause/volume control'',
         impact = Some ''serious'',
         nodes = [\<lparr>html = ''<audio src=intro.mp3 autoplay></audio>'', target = [],
                   failureSummary = None\<rparr>]\<rparr>]"
  by code_simp

end
